theory Spec2Isabelle
  imports Main "HOL-Library.Monad_Syntax" "HOL-Library.Word"
begin

section \<open>SkipList\<close>

text \<open>
  The skip list of SkipList.h.  Nodes live in a heap, a list of nodes in which the address
  of a node is its index; \<open>head\<close> is the node at address 0, allocated by the
  constructor, and \<open>Node::Make\<close> appends a node.  A \<open>Node *\<close> is a \<open>ptr\<close>:
  \<open>None\<close> is \<open>nullptr\<close>.  Every operation returns an \<open>option\<close>: \<open>None\<close> stands
  for an execution that yields no value (a loop that runs forever, a failed \<open>assert\<close>,
  or a read through a pointer or an index that is not valid).
\<close>

type_synonym ptr = "nat option"

record 'a Node =
  key :: 'a
  forward :: "ptr list"

text \<open>
  \<open>gen\<close> with \<open>distrib_\<close> is the sequence of the numbers still to be drawn;
  \<open>compare\<close> is the \<open>Compare\<close> object.
\<close>

record 'a SkipList =
  nodes :: "'a Node list"
  height :: nat
  compare :: "'a \<Rightarrow> 'a \<Rightarrow> bool"
  gen :: "nat \<Rightarrow> nat"

definition MaxLevel :: nat where
  "MaxLevel = 12"

definition head :: nat where
  "head = 0"

text \<open>\<open>x->Next(level)\<close> and \<open>x->NoSyncNext(level)\<close> (one thread: the memory order is not modelled).\<close>

definition Next :: "'a SkipList \<Rightarrow> nat \<Rightarrow> nat \<Rightarrow> ptr option" where
  "Next s x level =
     (if x < length (nodes s) \<and> level < length (forward (nodes s ! x))
      then Some (forward (nodes s ! x) ! level) else None)"

text \<open>\<open>x->SetNext(next, level)\<close> and \<open>x->NoSyncSetNext(next, level)\<close>.\<close>

definition SetNext :: "'a SkipList \<Rightarrow> nat \<Rightarrow> ptr \<Rightarrow> nat \<Rightarrow> 'a SkipList option" where
  "SetNext s x nxt level =
     (if x < length (nodes s) \<and> level < length (forward (nodes s ! x))
      then Some (s\<lparr>nodes := (nodes s)[x := (nodes s ! x)\<lparr>forward := (forward (nodes s ! x))[level := nxt]\<rparr>]\<rparr>)
      else None)"

text \<open>\<open>x->key\<close>.\<close>

definition key_of :: "'a SkipList \<Rightarrow> nat \<Rightarrow> 'a option" where
  "key_of s x = (if x < length (nodes s) then Some (key (nodes s ! x)) else None)"

text \<open>
  \<open>Node::Make(key, height)\<close>: a new node at a fresh address, with \<open>height\<close> forward
  slots.  The source leaves the slots uninitialised; they are null here, and \<open>Insert\<close>
  writes each of them before the node can be reached.
\<close>

definition Make :: "'a SkipList \<Rightarrow> 'a \<Rightarrow> nat \<Rightarrow> nat \<times> 'a SkipList" where
  "Make s k h =
     (length (nodes s), s\<lparr>nodes := nodes s @ [\<lparr>key = k, forward = replicate h None\<rparr>]\<rparr>)"

text \<open>
  The constructor: \<open>head\<close> is \<open>Node::Make(0, MaxLevel)\<close> with every slot set to null,
  \<open>height\<close> is 1.  \<open>k0\<close> is the key \<open>T(0)\<close> of the head, which is never compared.
\<close>

definition SkipList_new :: "('a \<Rightarrow> 'a \<Rightarrow> bool) \<Rightarrow> (nat \<Rightarrow> nat) \<Rightarrow> 'a \<Rightarrow> 'a SkipList" where
  "SkipList_new cmp g k0 =
     \<lparr>nodes = [\<lparr>key = k0, forward = replicate MaxLevel None\<rparr>], height = 1,
      compare = cmp, gen = g\<rparr>"

definition getHeight :: "'a SkipList \<Rightarrow> nat" where
  "getHeight s = height s"

text \<open>\<open>random()\<close>: the next number of the sequence, which is consumed.\<close>

definition random :: "'a SkipList \<Rightarrow> nat \<times> 'a SkipList" where
  "random s = (gen s 0, s\<lparr>gen := (\<lambda>i. gen s (Suc i))\<rparr>)"

text \<open>The loop of \<open>randomLevel\<close>; \<open>random()\<close> is called only while \<open>height < MaxLevel\<close>.\<close>

function randomLevel_loop :: "nat \<Rightarrow> 'a SkipList \<Rightarrow> nat \<times> 'a SkipList" where
  "randomLevel_loop h s =
     (if h < MaxLevel
      then (case random s of (r, s') \<Rightarrow>
              if r = 0 then randomLevel_loop (Suc h) s' else (h, s'))
      else (h, s))"
  by pat_completeness auto
termination
  by (relation "measure (\<lambda>(h, s). MaxLevel - h)") auto

definition randomLevel :: "'a SkipList \<Rightarrow> nat \<times> 'a SkipList" where
  "randomLevel s = randomLevel_loop 1 s"

definition keyEq :: "'a SkipList \<Rightarrow> 'a \<Rightarrow> 'a \<Rightarrow> bool" where
  "keyEq s k1 k2 = (\<not> compare s k2 k1 \<and> \<not> compare s k1 k2)"

text \<open>
  The inner loop that \<open>Insert\<close>, \<open>LowerBound\<close>, \<open>UpperBound\<close> and \<open>Find\<close> each write out:
  \<^verbatim>\<open>Node *next = x->Next(level);
  while (next != nullptr && go(next->key)) { x = next; next = x->Next(level); }\<close>
  where \<open>go\<close> is \<open>compare(next->key, key)\<close>, or \<open>!compare(key, next->key)\<close> in
  \<open>UpperBound\<close>.  It returns the last \<open>x\<close>.
\<close>

partial_function (option) advance :: "'a SkipList \<Rightarrow> ('a \<Rightarrow> bool) \<Rightarrow> nat \<Rightarrow> nat \<Rightarrow> nat option" where
  "advance s go level x =
     do { next \<leftarrow> Next s x level;
          case next of
            None \<Rightarrow> Some x
          | Some n \<Rightarrow> do { nk \<leftarrow> key_of s n;
                           if go nk then advance s go level n else Some x } }"

text \<open>
  The \<open>for (level = getHeight() - 1; level >= 0; level--)\<close> loops.  The third argument
  counts the levels still to visit: \<open>Suc level\<close> visits \<open>level\<close>, 0 leaves the loop.
  \<open>update\<close> is the array \<open>Node *update[MaxLevel]\<close>, whose entries are not initialised.
\<close>

fun Insert_search :: "'a SkipList \<Rightarrow> 'a \<Rightarrow> nat \<Rightarrow> nat \<Rightarrow> (nat \<rightharpoonup> nat) \<Rightarrow> (nat \<times> (nat \<rightharpoonup> nat)) option" where
  "Insert_search s k 0 x update = Some (x, update)"
| "Insert_search s k (Suc level) x update =
     do { x' \<leftarrow> advance s (\<lambda>nk. compare s nk k) level x;
          Insert_search s k level x' (update(level \<mapsto> x')) }"

fun Find_search :: "'a SkipList \<Rightarrow> 'a \<Rightarrow> nat \<Rightarrow> nat \<Rightarrow> nat option" where
  "Find_search s k 0 x = Some x"
| "Find_search s k (Suc level) x =
     do { x' \<leftarrow> advance s (\<lambda>nk. compare s nk k) level x;
          Find_search s k level x' }"

text \<open>An \<open>Iterator\<close> is its \<open>node_\<close>; \<open>End()\<close> is the null iterator.\<close>

definition End :: ptr where
  "End = None"

definition Begin :: "'a SkipList \<Rightarrow> ptr option" where
  "Begin s = Next s head 0"

definition Find :: "'a SkipList \<Rightarrow> 'a \<Rightarrow> ptr option" where
  "Find s k =
     do { x \<leftarrow> Find_search s k (getHeight s) head;
          x \<leftarrow> Next s x 0;
          case x of
            None \<Rightarrow> Some x
          | Some n \<Rightarrow> do { nk \<leftarrow> key_of s n;
                           if compare s k nk then Some End else Some x } }"

text \<open>\<open>LowerBound\<close> and \<open>UpperBound\<close> return inside the loop at level 0; leaving the loop is \<open>assert(0)\<close>.\<close>

fun LowerBound_loop :: "'a SkipList \<Rightarrow> 'a \<Rightarrow> nat \<Rightarrow> nat \<Rightarrow> ptr option" where
  "LowerBound_loop s k 0 x = None"
| "LowerBound_loop s k (Suc level) x =
     do { x' \<leftarrow> advance s (\<lambda>nk. compare s nk k) level x;
          if level = 0 then Next s x' level else LowerBound_loop s k level x' }"

definition LowerBound :: "'a SkipList \<Rightarrow> 'a \<Rightarrow> ptr option" where
  "LowerBound s k = LowerBound_loop s k (getHeight s) head"

fun UpperBound_loop :: "'a SkipList \<Rightarrow> 'a \<Rightarrow> nat \<Rightarrow> nat \<Rightarrow> ptr option" where
  "UpperBound_loop s k 0 x = None"
| "UpperBound_loop s k (Suc level) x =
     do { x' \<leftarrow> advance s (\<lambda>nk. \<not> compare s k nk) level x;
          if level = 0 then Next s x' level else UpperBound_loop s k level x' }"

definition UpperBound :: "'a SkipList \<Rightarrow> 'a \<Rightarrow> ptr option" where
  "UpperBound s k = UpperBound_loop s k (getHeight s) head"

text \<open>\<open>for (int i = getHeight(); i < level; i++) update[i] = head;\<close>\<close>

function Insert_fill :: "(nat \<rightharpoonup> nat) \<Rightarrow> nat \<Rightarrow> nat \<Rightarrow> (nat \<rightharpoonup> nat)" where
  "Insert_fill update i level =
     (if i < level then Insert_fill (update(i \<mapsto> head)) (Suc i) level else update)"
  by pat_completeness auto
termination
  by (relation "measure (\<lambda>(update, i, level). level - i)") auto

text \<open>
  The linking loop, bottom to top:
  \<^verbatim>\<open>x->NoSyncSetNext(update[i]->NoSyncNext(i), i); update[i]->SetNext(x, i);\<close>
\<close>

function Insert_link :: "'a SkipList \<Rightarrow> (nat \<rightharpoonup> nat) \<Rightarrow> nat \<Rightarrow> nat \<Rightarrow> nat \<Rightarrow> 'a SkipList option" where
  "Insert_link s update x level i =
     (if i < level
      then do { u \<leftarrow> update i;
                n \<leftarrow> Next s u i;
                s1 \<leftarrow> SetNext s x n i;
                s2 \<leftarrow> SetNext s1 u (Some x) i;
                Insert_link s2 update x level (Suc i) }
      else Some s)"
  by pat_completeness auto
termination
  by (relation "measure (\<lambda>(s, update, x, level, i). level - i)") auto

declare randomLevel_loop.simps [simp del] Insert_fill.simps [simp del] Insert_link.simps [simp del]

text \<open>\<open>Insert\<close> returns the iterator and the list after the call.\<close>

definition Insert :: "'a SkipList \<Rightarrow> 'a \<Rightarrow> (ptr \<times> 'a SkipList) option" where
  "Insert s k =
     do { (x, update) \<leftarrow> Insert_search s k (getHeight s) head Map.empty;
          x \<leftarrow> Next s x 0;
          eq \<leftarrow> (case x of None \<Rightarrow> Some False
                 | Some n \<Rightarrow> do { nk \<leftarrow> key_of s n; Some (keyEq s k nk) });
          if eq then Some (x, s)
          else do {
            f \<leftarrow> Find s k;
            if f \<noteq> End then None
            else do {
              (level, s) \<leftarrow> Some (randomLevel s);
              (update, s) \<leftarrow> Some (if level > getHeight s
                                   then (Insert_fill update (getHeight s) level, s\<lparr>height := level\<rparr>)
                                   else (update, s));
              (x, s) \<leftarrow> Some (Make s k level);
              s \<leftarrow> Insert_link s update x level 0;
              Some (Some x, s) } } }"

text \<open>
  A traversal \<open>for (it = Begin(); it != End(); ++it)\<close> that collects \<open>*it\<close>: the keys
  from the iterator \<open>it\<close> on.
\<close>

partial_function (option) traverse :: "'a SkipList \<Rightarrow> ptr \<Rightarrow> 'a list option" where
  "traverse s it =
     (case it of
        None \<Rightarrow> Some []
      | Some n \<Rightarrow> do { k \<leftarrow> key_of s n; it' \<leftarrow> Next s n 0; ks \<leftarrow> traverse s it'; Some (k # ks) })"

definition keys_of :: "'a SkipList \<Rightarrow> 'a list option" where
  "keys_of s = do { it \<leftarrow> Begin s; traverse s it }"

text \<open>A sequence of calls of \<open>Insert\<close>, the iterators dropped.\<close>

fun Insert_all :: "'a SkipList \<Rightarrow> 'a list \<Rightarrow> 'a SkipList option" where
  "Insert_all s [] = Some s"
| "Insert_all s (k # ks) = do { (it, s') \<leftarrow> Insert s k; Insert_all s' ks }"

subsection \<open>Notions used to state and prove the properties of the skip list\<close>

text \<open>
  \<open>strict_weak_order\<close> is the contract of \<open>Compare\<close> (SkipList.h: ``true if a is
  considered to go before b in the strict weak ordering the function defines''), and
  \<open>equiv\<close> the equivalence it induces, which \<open>keyEq\<close> decides.
\<close>

definition strict_weak_order :: "('a \<Rightarrow> 'a \<Rightarrow> bool) \<Rightarrow> bool" where
  "strict_weak_order lt \<longleftrightarrow>
     (\<forall>a. \<not> lt a a) \<and> (\<forall>a b c. lt a b \<longrightarrow> lt b c \<longrightarrow> lt a c) \<and>
     (\<forall>a b c. \<not> lt a b \<and> \<not> lt b a \<longrightarrow> \<not> lt b c \<and> \<not> lt c b \<longrightarrow> \<not> lt a c \<and> \<not> lt c a)"

definition equiv :: "('a \<Rightarrow> 'a \<Rightarrow> bool) \<Rightarrow> 'a \<Rightarrow> 'a \<Rightarrow> bool" where
  "equiv lt a b \<longleftrightarrow> \<not> lt a b \<and> \<not> lt b a"

text \<open>
  \<open>seg h l p xs q\<close>: in the heap \<open>h\<close>, following the level-\<open>l\<close> pointers from \<open>p\<close>
  visits exactly the nodes \<open>xs\<close> and arrives at \<open>q\<close>.
\<close>

fun seg :: "'a Node list \<Rightarrow> nat \<Rightarrow> ptr \<Rightarrow> nat list \<Rightarrow> ptr \<Rightarrow> bool" where
  "seg h l p [] q = (p = q)"
| "seg h l p (a # as) q =
     (p = Some a \<and> a < length h \<and> l < length (forward (h ! a)) \<and> seg h l (forward (h ! a) ! l) as q)"

text \<open>
  The shape of a list whose level-\<open>l\<close> chain from the head is \<open>L l\<close>, and the invariant of
  the skip list: every chain ends in null, is strictly increasing, and is contained in the
  chain below; the chains at and above \<open>height\<close> are empty.
\<close>

definition sl_shape :: "'a Node list \<Rightarrow> (nat \<Rightarrow> nat list) \<Rightarrow> bool" where
  "sl_shape h L \<longleftrightarrow>
     h \<noteq> [] \<and> length (forward (h ! 0)) = MaxLevel \<and>
     (\<forall>l<MaxLevel. seg h l (forward (h ! 0) ! l) (L l) None \<and> 0 \<notin> set (L l) \<and> distinct (L l))"

definition sl_inv :: "'a SkipList \<Rightarrow> (nat \<Rightarrow> nat list) \<Rightarrow> bool" where
  "sl_inv s L \<longleftrightarrow>
     sl_shape (nodes s) L \<and> 1 \<le> height s \<and> height s \<le> MaxLevel \<and>
     (\<forall>l<MaxLevel. sorted_wrt (compare s) (map (\<lambda>a. key (nodes s ! a)) (L l))) \<and>
     (\<forall>l. Suc l < MaxLevel \<longrightarrow> set (L (Suc l)) \<subseteq> set (L l)) \<and>
     (\<forall>l. height s \<le> l \<and> l < MaxLevel \<longrightarrow> L l = [])"

text \<open>Writing the forward slot \<open>i\<close> of node \<open>a\<close>, as \<open>SetNext\<close> does.\<close>

definition upd :: "'a Node list \<Rightarrow> nat \<Rightarrow> nat \<Rightarrow> ptr \<Rightarrow> 'a Node list" where
  "upd h a i v = h[a := (h ! a)\<lparr>forward := (forward (h ! a))[i := v]\<rparr>]"

text \<open>
  The reference for the content of the list: the sorted sequence of the inserted keys, in
  which a key equivalent to an earlier one is dropped.
\<close>

definition ins_key :: "('a \<Rightarrow> 'a \<Rightarrow> bool) \<Rightarrow> 'a \<Rightarrow> 'a list \<Rightarrow> 'a list" where
  "ins_key lt k xs =
     (if \<exists>x\<in>set xs. equiv lt x k then xs
      else takeWhile (\<lambda>x. lt x k) xs @ k # dropWhile (\<lambda>x. lt x k) xs)"

definition sorted_keys :: "('a \<Rightarrow> 'a \<Rightarrow> bool) \<Rightarrow> 'a list \<Rightarrow> 'a list" where
  "sorted_keys lt ks = foldl (\<lambda>xs k. ins_key lt k xs) [] ks"

text \<open>
  The node at which the search loop stops on a chain \<open>xs\<close>: the last node that the
  loop passes, or the head.
\<close>

definition pred_at :: "'a SkipList \<Rightarrow> ('a \<Rightarrow> bool) \<Rightarrow> nat list \<Rightarrow> nat" where
  "pred_at s go xs = last (0 # takeWhile (\<lambda>a. go (key (nodes s ! a))) xs)"

text \<open>The node after it: the first node of the chain at which the loop stops, or null.\<close>

definition succ_at :: "'a SkipList \<Rightarrow> ('a \<Rightarrow> bool) \<Rightarrow> nat list \<Rightarrow> ptr" where
  "succ_at s go xs =
     (case dropWhile (\<lambda>a. go (key (nodes s ! a))) xs of [] \<Rightarrow> None | a # _ \<Rightarrow> Some a)"

text \<open>The chain \<open>xs\<close> with the node \<open>n\<close> linked in after the nodes that satisfy \<open>P\<close>.\<close>

definition ins_node :: "(nat \<Rightarrow> bool) \<Rightarrow> nat \<Rightarrow> nat list \<Rightarrow> nat list" where
  "ins_node P n xs = takeWhile P xs @ n # dropWhile P xs"
section \<open>MemTable\<close>

text \<open>
  \<open>MemTable::Add\<close> of MemTable.cc.  MemTable.h, InternalKey.h, Coding.h and the arena
  are not in the sources; what \<open>Add\<close> needs of them is modelled from the spec or taken
  as a parameter.
\<close>

type_synonym byte = "8 word"

datatype ValueType = TypeDeletion | TypeValue

text \<open>
  Modelled from the spec: \<open>coding::AppendVarString\<close>, which appends a length-prefixed
  byte string; the length is a var32 (little-endian, 7 data bits per byte, the high bit
  set on every byte but the last).
\<close>

function PutVar32 :: "nat \<Rightarrow> byte list" where
  "PutVar32 n = (if n < 128 then [of_nat n] else of_nat (128 + n mod 128) # PutVar32 (n div 128))"
  by pat_completeness auto
termination
  by (relation "measure (\<lambda>n. n)") auto

declare PutVar32.simps [simp del]

definition AppendVarString :: "byte list \<Rightarrow> byte list \<Rightarrow> byte list" where
  "AppendVarString b s = b @ PutVar32 (length s) @ s"

text \<open>
  Modelled from the spec: \<open>Arena::allocate\<close>, which carves a fresh region of \<open>n\<close>
  bytes and never returns the same bytes twice.  The arena is the list of its regions; a
  pointer to a region is its index.
\<close>

definition allocate :: "byte list list \<Rightarrow> nat \<Rightarrow> nat \<times> byte list list" where
  "allocate a n = (length a, a @ [replicate n 0])"

text \<open>
  \<open>table_\<close> holds \<open>const char *\<close> entries that the comparator reads; an entry of
  the list is modelled by the bytes that the pointer refers to, which nothing changes
  after \<open>Add\<close> has copied them.  The head of the list holds the null pointer, here the
  empty string.

  Modelled from the spec: the comparator of \<open>table_\<close>.  The constructor in MemTable.cc
  does not show how the list compares; the spec has it ordered by the comparator that
  the caller supplies, applied to the stored buffers.  It is the parameter \<open>lt\<close>.
\<close>

record MemTable =
  arena :: "byte list list"
  table :: "byte list SkipList"

definition MemTable_new :: "(byte list \<Rightarrow> byte list \<Rightarrow> bool) \<Rightarrow> (nat \<Rightarrow> nat) \<Rightarrow> MemTable" where
  "MemTable_new lt g = \<lparr>arena = [], table = SkipList_new lt g []\<rparr>"

text \<open>
  \<open>Add(sequence, type, key, value)\<close>.  \<open>ikey k sequence type\<close> is
  \<open>InternalKeyBuf(key, sequence, type).Data()\<close>, whose layout InternalKey.h defines.
\<close>

definition entry_of :: "(byte list \<Rightarrow> nat \<Rightarrow> ValueType \<Rightarrow> byte list) \<Rightarrow> nat \<Rightarrow> ValueType \<Rightarrow> byte list \<Rightarrow> byte list \<Rightarrow> byte list" where
  "entry_of ikey sequence type k v = AppendVarString (AppendVarString [] (ikey k sequence type)) v"

definition Add :: "(byte list \<Rightarrow> nat \<Rightarrow> ValueType \<Rightarrow> byte list) \<Rightarrow> MemTable \<Rightarrow> nat \<Rightarrow> ValueType \<Rightarrow> byte list \<Rightarrow> byte list \<Rightarrow> MemTable option" where
  "Add ikey m sequence type k v =
     (let b = entry_of ikey sequence type k v;
          (entry, a) = allocate (arena m) (length b);
          a = a[entry := b]
      in do { (it, t) \<leftarrow> Insert (table m) (a ! entry);
              Some (m\<lparr>arena := a, table := t\<rparr>) })"

text \<open>A sequence of calls of \<open>Add\<close>, each with its sequence number, kind, key and value.\<close>

fun Add_all :: "(byte list \<Rightarrow> nat \<Rightarrow> ValueType \<Rightarrow> byte list) \<Rightarrow> MemTable \<Rightarrow> (nat \<times> ValueType \<times> byte list \<times> byte list) list \<Rightarrow> MemTable option" where
  "Add_all ikey m [] = Some m"
| "Add_all ikey m ((sequence, type, k, v) # ops) =
     do { m' \<leftarrow> Add ikey m sequence type k v; Add_all ikey m' ops }"

text \<open>
  For the example: an internal key that is the user key, a byte of the sequence number
  and a byte of the kind, and a comparator of entries with a one-byte user key that puts
  the higher sequence number first.
\<close>

definition ikey_example :: "byte list \<Rightarrow> nat \<Rightarrow> ValueType \<Rightarrow> byte list" where
  "ikey_example k sequence type = k @ [of_nat sequence, (if type = TypeValue then 1 else 0)]"

definition lt_example :: "byte list \<Rightarrow> byte list \<Rightarrow> bool" where
  "lt_example x y \<longleftrightarrow>
     (if length y > 2 then unat (y ! 2) else 0) < (if length x > 2 then unat (x ! 2) else 0)"

text \<open>The random stream of the list in the example.\<close>

definition gen_example :: "nat \<Rightarrow> nat" where
  "gen_example i = i mod 4"

text \<open>The entries of the memtable in the order of the list, from its first node on.\<close>

definition table_entries :: "MemTable \<Rightarrow> byte list list option" where
  "table_entries m = keys_of (table m)"
section \<open>Block\<close>

text \<open>
  The block decoder of Block.cc.  The block's bytes are a list; a \<open>const char *\<close> into
  the block is its offset from \<open>data_\<close>, so \<open>data_\<close> is 0 and \<open>data_end_\<close> an offset.
  Member names lose their trailing underscore; \<open>size_\<close> is \<open>size_b\<close> and the
  string \<open>key_\<close> of a cursor is \<open>key_str\<close>.

  An operation yields \<open>Inr\<close> its result, or \<open>Inl\<close> the way it stops: a failed
  \<open>assert\<close>, a read outside the bytes, an exception that nothing catches, or an
  \<open>int\<close> computation whose result no \<open>int\<close> holds.  The operations with a loop that
  may run forever return an \<open>option\<close> around that: \<open>None\<close> is the run that never
  returns.
\<close>

datatype error = AssertionFailed | OutOfBounds | DecodeException | SignedOverflow

datatype Status = OK | Corruption


definition bindR :: "(error + 'a) option \<Rightarrow> ('a \<Rightarrow> (error + 'b) option) \<Rightarrow> (error + 'b) option" where
  "bindR m f = (case m of None \<Rightarrow> None | Some (Inl e) \<Rightarrow> Some (Inl e) | Some (Inr x) \<Rightarrow> f x)"

definition bindE :: "error + 'a \<Rightarrow> ('a \<Rightarrow> error + 'b) \<Rightarrow> error + 'b" where
  "bindE m f = (case m of Inl e \<Rightarrow> Inl e | Inr x \<Rightarrow> f x)"

subsection \<open>The helpers that the sources call but do not contain\<close>

text \<open>A \<open>Slice\<close> is a pointer and a length.\<close>

record Slice =
  RawData :: nat
  Len :: nat

text \<open>
  Modelled from the spec: \<open>Slice::Skip\<close>; Slice.h is not in the sources.  It drops the
  first \<open>n\<close> bytes of the slice; dropping more than the slice holds is taken to fail an
  assertion (an invariant violation, which the spec treats as fatal).
\<close>

definition Skip :: "Slice \<Rightarrow> nat \<Rightarrow> error + Slice" where
  "Skip s n = (if n \<le> Len s then Inr \<lparr>RawData = RawData s + n, Len = Len s - n\<rparr>
               else Inl AssertionFailed)"

text \<open>The \<open>n\<close> bytes at the offset \<open>p\<close>, as a \<open>Slice\<close> or a string \<open>append\<close> reads them.\<close>

definition bytes_at :: "byte list \<Rightarrow> nat \<Rightarrow> nat \<Rightarrow> error + byte list" where
  "bytes_at d p n = (if p + n \<le> length d then Inr (take n (drop p d)) else Inl OutOfBounds)"

text \<open>
  Modelled from the spec: \<open>coding::GetVar32\<close>; Coding.h is not in the sources.  The
  spec's var32 is little-endian, 7 data bits per byte, the high bit set on every byte but
  the last.  \<open>decode_var32 i bs\<close>, after \<open>i\<close> bytes of the number, reads the rest of
  it from \<open>bs\<close> and gives the value and the number of bytes read, or \<open>None\<close> when
  \<open>bs\<close> ends before the last byte (truncated) or the number does not end with its fifth
  byte (malformed).
\<close>

fun decode_var32 :: "nat \<Rightarrow> byte list \<Rightarrow> (nat \<times> nat) option" where
  "decode_var32 i [] = None"
| "decode_var32 i (b # bs) =
     (if 5 \<le> i then None
      else if unat b < 128 then Some (unat b, 1)
      else map_option (\<lambda>(v, c). (unat b - 128 + 128 * v, Suc c)) (decode_var32 (Suc i) bs))"

text \<open>
  \<open>GetVar32(&buf, &v)\<close> on the bytes \<open>d\<close>: the value, kept to 32 bits, and the slice
  after the number; it throws on a truncated or malformed number.
\<close>

definition GetVar32 :: "byte list \<Rightarrow> Slice \<Rightarrow> error + nat \<times> Slice" where
  "GetVar32 d s =
     (if RawData s + Len s \<le> length d
      then (case decode_var32 0 (take (Len s) (drop (RawData s) d)) of
              None \<Rightarrow> Inl DecodeException
            | Some (v, c) \<Rightarrow> Inr (v mod 2 ^ 32, \<lparr>RawData = RawData s + c, Len = Len s - c\<rparr>))
      else Inl OutOfBounds)"

text \<open>
  Modelled from the spec: \<open>ConstDataView::ReadNum<uint32_t>\<close>; DataView.h is not in the
  sources.  The spec's trailer holds fixed-width 4-byte numbers; they are read
  little-endian, as the var32 numbers are.
\<close>

definition ReadNum32 :: "byte list \<Rightarrow> nat \<Rightarrow> error + nat" where
  "ReadNum32 d p =
     (if p + 4 \<le> length d
      then Inr (unat (d ! p) + 256 * unat (d ! (p + 1)) + 65536 * unat (d ! (p + 2)) +
                16777216 * unat (d ! (p + 3)))
      else Inl OutOfBounds)"

subsection \<open>Block and its cursor\<close>

text \<open>
  \<open>comp\<close> is \<open>comp_->Compare\<close>, the three-way comparison of the \<open>Comparator\<close> that
  the caller supplies.  \<open>num_restart_\<close> is a 32-bit unsigned number.
\<close>

record Block =
  data :: "byte list"
  size_b :: nat
  comp :: "byte list \<Rightarrow> byte list \<Rightarrow> int"
  num_restart :: nat
  data_end :: nat

record BlockConstIterator =
  buf :: nat
  buf_len :: nat
  shared :: nat
  unshared :: nat
  value_len :: nat
  last_key :: "nat option"
  restart_pos :: nat
  key_str :: "byte list"
  stat :: Status

text \<open>The constructor; \<open>4 * (num_restart_ + 1)\<close> is computed in 32 bits.\<close>

definition Block_new :: "byte list \<Rightarrow> (byte list \<Rightarrow> byte list \<Rightarrow> int) \<Rightarrow> error + Block" where
  "Block_new content c =
     (if length content < 4 then Inl OutOfBounds
      else bindE (ReadNum32 content (length content - 4)) (\<lambda>n.
        if length content \<ge> (4 * (n + 1)) mod 2 ^ 32
        then Inr \<lparr>data = content, size_b = length content, comp = c, num_restart = n,
                  data_end = length content - (4 * (n + 1)) mod 2 ^ 32\<rparr>
        else Inl AssertionFailed))"

text \<open>The \<open>catch (std::exception &e)\<close> of \<open>init\<close>: it sets \<open>stat_\<close> and returns.\<close>

definition catch :: "error \<Rightarrow> BlockConstIterator \<Rightarrow> error + BlockConstIterator" where
  "catch e it = (if e = DecodeException then Inr (it\<lparr>stat := Corruption\<rparr>) else Inl e)"

text \<open>
  \<open>init(p)\<close>.  Each \<open>GetVar32\<close> writes its member as soon as it has decoded it.  For
  \<open>p\<close> beyond \<open>data_end_\<close> the unsigned \<open>len\<close> wraps around and the decoder reads
  outside the entries: that is out of bounds here.
\<close>

definition init :: "Block \<Rightarrow> BlockConstIterator \<Rightarrow> nat \<Rightarrow> error + BlockConstIterator" where
  "init b it p =
     (if p > data_end b then Inl OutOfBounds
      else if data_end b - p > 0
      then (case GetVar32 (data b) \<lparr>RawData = p, Len = data_end b - p\<rparr> of
              Inl e \<Rightarrow> catch e it
            | Inr (sh, buf1) \<Rightarrow>
               (case GetVar32 (data b) buf1 of
                  Inl e \<Rightarrow> catch e (it\<lparr>shared := sh\<rparr>)
                | Inr (un, buf2) \<Rightarrow>
                   (case GetVar32 (data b) buf2 of
                      Inl e \<Rightarrow> catch e (it\<lparr>shared := sh, unshared := un\<rparr>)
                    | Inr (vl, buf3) \<Rightarrow>
                        Inr ((it\<lparr>shared := sh, unshared := un, value_len := vl,
                                 buf := RawData buf3, buf_len := Len buf3\<rparr>)
                             \<lparr>restart_pos := (if un = 0 then p else restart_pos it)\<rparr>))))
      else Inr (it\<lparr>buf := p, buf_len := 0\<rparr>))"

text \<open>
  The constructor of the cursor.  It leaves \<open>buf_\<close>, \<open>buf_len_\<close> and the three lengths
  to \<open>init\<close>; where \<open>init\<close> does not set them, the source has no value for them and
  the model has 0.
\<close>

definition BlockConstIterator_new :: "Block \<Rightarrow> nat \<Rightarrow> nat \<Rightarrow> error + BlockConstIterator" where
  "BlockConstIterator_new b p restart =
     init b \<lparr>buf = 0, buf_len = 0, shared = 0, unshared = 0, value_len = 0, last_key = None,
             restart_pos = restart, key_str = [], stat = OK\<rparr> p"

definition Block_begin :: "Block \<Rightarrow> error + BlockConstIterator" where
  "Block_begin b = BlockConstIterator_new b 0 0"

definition Block_end :: "Block \<Rightarrow> error + BlockConstIterator" where
  "Block_end b = BlockConstIterator_new b (data_end b) 0"

definition iter_equal :: "BlockConstIterator \<Rightarrow> BlockConstIterator \<Rightarrow> bool" where
  "iter_equal x other \<longleftrightarrow> buf x = buf other \<and> buf_len x = buf_len other"

definition increment :: "Block \<Rightarrow> BlockConstIterator \<Rightarrow> error + BlockConstIterator" where
  "increment b it =
     bindE (Skip \<lparr>RawData = buf it, Len = buf_len it\<rparr> (unshared it)) (\<lambda>s1.
     bindE (Skip s1 (value_len it)) (\<lambda>s2.
     bindE (init b (it\<lparr>last_key := Some (buf it)\<rparr>) (RawData s2)) (\<lambda>it'.
     Inr (it'\<lparr>key_str := []\<rparr>))))"

definition Value :: "Block \<Rightarrow> BlockConstIterator \<Rightarrow> error + byte list" where
  "Value b it = bytes_at (data b) (buf it + unshared it) (value_len it)"

text \<open>The loop \<open>while (it.buf_ < buf_) it++;\<close> of \<open>Key\<close>, on the local cursor \<open>it\<close>.\<close>

partial_function (option) Key_replay :: "Block \<Rightarrow> BlockConstIterator \<Rightarrow> nat \<Rightarrow> (error + BlockConstIterator) option" where
  "Key_replay b it bf =
     (if buf it < bf
      then (case increment b it of Inl e \<Rightarrow> Some (Inl e) | Inr it' \<Rightarrow> Key_replay b it' bf)
      else Some (Inr it))"

text \<open>
  \<open>Key()\<close> returns the key and the cursor, whose \<open>key_\<close> it has filled.  The cursor
  that the replay loop advances is a local variable: only the assertion after the loop
  reads it.  \<open>key_.append(last_key_, shared_)\<close> reads \<open>shared_\<close> bytes at \<open>last_key_\<close>;
  through a null \<open>last_key_\<close> that is a read outside the bytes, unless \<open>shared_\<close> is 0.
\<close>

definition Key :: "Block \<Rightarrow> BlockConstIterator \<Rightarrow> (error + byte list \<times> BlockConstIterator) option" where
  "Key b it =
     (if buf it = data_end b then Some (Inl AssertionFailed)
      else if key_str it \<noteq> [] then Some (Inr (key_str it, it))
      else bindR (if last_key it = None
                  then bindR (Some (BlockConstIterator_new b (restart_pos it) (restart_pos it))) (\<lambda>r.
                       bindR (Key_replay b r (buf it)) (\<lambda>r'.
                       if buf r' = buf it then Some (Inr ()) else Some (Inl AssertionFailed)))
                  else Some (Inr ())) (\<lambda>_.
           bindR (Some (case last_key it of
                          None \<Rightarrow> if shared it = 0 then Inr [] else Inl OutOfBounds
                        | Some lk \<Rightarrow> bytes_at (data b) lk (shared it))) (\<lambda>pre.
           bindR (Some (bytes_at (data b) (buf it) (unshared it))) (\<lambda>suf.
           Some (Inr (pre @ suf, it\<lparr>key_str := pre @ suf\<rparr>))))))"

text \<open>\<open>restartPoint(id)\<close>; \<open>num_restart_ - id + 1\<close> and its product by 4 are computed in 32 bits.\<close>

definition restartPoint :: "Block \<Rightarrow> nat \<Rightarrow> error + nat" where
  "restartPoint b i =
     (if i \<le> num_restart b
      then (let off = (4 * ((num_restart b - i + 1) mod 2 ^ 32)) mod 2 ^ 32 in
            if off \<le> size_b b
            then bindE (ReadNum32 (data b) (size_b b - off)) (\<lambda>r.
                   if r \<le> data_end b then Inr r else Inl AssertionFailed)
            else Inl OutOfBounds)
      else Inl AssertionFailed)"

text \<open>\<open>keyAtRestartPoint(id)\<close>: the exceptions of \<open>GetVar32\<close> are not caught here.\<close>

definition keyAtRestartPoint :: "Block \<Rightarrow> nat \<Rightarrow> error + byte list" where
  "keyAtRestartPoint b i =
     bindE (restartPoint b i) (\<lambda>pos.
     bindE (GetVar32 (data b) \<lparr>RawData = pos, Len = data_end b - pos\<rparr>) (\<lambda>(sh, buf1).
       if sh \<noteq> 0 then Inl AssertionFailed
       else bindE (GetVar32 (data b) buf1) (\<lambda>(un, buf2).
            bindE (GetVar32 (data b) buf2) (\<lambda>(vl, buf3).
            bytes_at (data b) (RawData buf3) un))))"

text \<open>
  The arithmetic of the 32-bit \<open>int\<close> indices \<open>lb\<close>, \<open>rb\<close> and \<open>mid\<close>.
  \<open>int rb = num_restart_\<close> converts an unsigned 32-bit number: a number from \<open>2^31\<close>
  on becomes negative.  Passing an \<open>int\<close> to \<open>restartPoint\<close>, which compares it with
  the unsigned \<open>num_restart_\<close> and subtracts it from it, converts it back.  \<open>/\<close>
  truncates toward zero, and a sum or difference outside the range of \<open>int\<close> is
  undefined.
\<close>

definition int_of_uint32 :: "nat \<Rightarrow> int" where
  "int_of_uint32 n =
     (if n mod 2 ^ 32 < 2 ^ 31 then int (n mod 2 ^ 32) else int (n mod 2 ^ 32) - 2 ^ 32)"

definition uint32_of_int :: "int \<Rightarrow> nat" where
  "uint32_of_int i = nat (i mod 2 ^ 32)"

definition int_overflows :: "int \<Rightarrow> bool" where
  "int_overflows i \<longleftrightarrow> i < - (2 ^ 31) \<or> 2 ^ 31 \<le> i"

definition int_div2 :: "int \<Rightarrow> int" where
  "int_div2 i = (if 0 \<le> i then i div 2 else - ((- i) div 2))"

text \<open>
  The binary search of \<open>lower_bound\<close> over the restart indices,
  \<open>while (rb - lb > 1) { mid = (lb + rb) / 2; \<dots> }\<close>; it returns \<open>lb\<close> and \<open>rb\<close>.
\<close>

function lower_bound_search :: "Block \<Rightarrow> byte list \<Rightarrow> int \<Rightarrow> int \<Rightarrow> error + int \<times> int" where
  "lower_bound_search b target lb rb =
     (if int_overflows (rb - lb) then Inl SignedOverflow
      else if rb - lb > 1
      then (if int_overflows (lb + rb) then Inl SignedOverflow
            else (case keyAtRestartPoint b (uint32_of_int (int_div2 (lb + rb))) of
                    Inl e \<Rightarrow> Inl e
                  | Inr k \<Rightarrow> if comp b k target \<ge> 0
                             then lower_bound_search b target lb (int_div2 (lb + rb))
                             else lower_bound_search b target (int_div2 (lb + rb)) rb))
      else Inr (lb, rb))"
  by pat_completeness auto
termination
  by (relation "measure (\<lambda>(b, target, lb, rb). nat (rb - lb))") (auto simp: int_div2_def)

declare lower_bound_search.simps [simp del]

text \<open>The loop \<open>for (; it != end(); it++) if (comp_->Compare(it.Key(), target) >= 0) break;\<close>\<close>

partial_function (option) lower_bound_scan :: "Block \<Rightarrow> byte list \<Rightarrow> BlockConstIterator \<Rightarrow> (error + BlockConstIterator) option" where
  "lower_bound_scan b target it =
     (case Block_end b of
        Inl e \<Rightarrow> Some (Inl e)
      | Inr e \<Rightarrow>
          if iter_equal it e then Some (Inr it)
          else (case Key b it of
                  None \<Rightarrow> None
                | Some (Inl er) \<Rightarrow> Some (Inl er)
                | Some (Inr (k, it1)) \<Rightarrow>
                    if comp b k target \<ge> 0 then Some (Inr it1)
                    else (case increment b it1 of
                            Inl er \<Rightarrow> Some (Inl er)
                          | Inr it2 \<Rightarrow> lower_bound_scan b target it2)))"

definition Block_lower_bound :: "Block \<Rightarrow> byte list \<Rightarrow> (error + BlockConstIterator) option" where
  "Block_lower_bound b target =
     bindR (Some (lower_bound_search b target 0 (int_of_uint32 (num_restart b)))) (\<lambda>(lb, rb).
     bindR (Some (keyAtRestartPoint b (uint32_of_int lb))) (\<lambda>k.
       if comp b k target > 0
       then (if lb = 0 \<and> rb = lb + 1 then Some (Block_end b) else Some (Inl AssertionFailed))
       else bindR (Some (restartPoint b (uint32_of_int lb))) (\<lambda>pos.
            bindR (Some (BlockConstIterator_new b pos pos)) (\<lambda>it.
            lower_bound_scan b target it))))"

definition Block_find :: "Block \<Rightarrow> byte list \<Rightarrow> (error + BlockConstIterator) option" where
  "Block_find b target =
     bindR (Block_lower_bound b target) (\<lambda>it.
     bindR (Key b it) (\<lambda>(k, it1).
       if comp b k target \<noteq> 0 then Some (Block_end b) else Some (Inr it1)))"

subsection \<open>Blocks for the examples\<close>

text \<open>A bytewise three-way comparison, as a \<open>Comparator\<close> for the examples.\<close>

fun bytewise :: "byte list \<Rightarrow> byte list \<Rightarrow> int" where
  "bytewise [] [] = 0"
| "bytewise [] (y # ys) = - 1"
| "bytewise (x # xs) [] = 1"
| "bytewise (x # xs) (y # ys) = (if x < y then - 1 else if y < x then 1 else bytewise xs ys)"

text \<open>
  The block with one restart group that holds the keys \<open>aa\<close>, \<open>ab\<close>, \<open>ac\<close> with the
  values \<open>x\<close>, \<open>y\<close>, \<open>z\<close>: three entries (shared length, unshared length, value
  length, unshared key bytes, value), the restart offset 0 and the restart count 1.
\<close>

definition block3_bytes :: "byte list" where
  "block3_bytes =
     [0, 2, 1, 0x61, 0x61, 0x78,   1, 1, 1, 0x62, 0x79,   1, 1, 1, 0x63, 0x7a,
      0, 0, 0, 0,   1, 0, 0, 0]"

definition block3 :: Block where
  "block3 = \<lparr>data = block3_bytes, size_b = 24, comp = bytewise, num_restart = 1, data_end = 16\<rparr>"

text \<open>
  The block of the spec's example: the keys \<open>aa\<close>, \<open>ab\<close>, \<open>ac\<close>, \<open>ba\<close>, \<open>bb\<close>,
  \<open>bc\<close> in two restart groups of three entries, at the offsets 0 and 16.
\<close>

definition block6_bytes :: "byte list" where
  "block6_bytes =
     [0, 2, 1, 0x61, 0x61, 0x78,   1, 1, 1, 0x62, 0x79,   1, 1, 1, 0x63, 0x7a,
      0, 2, 1, 0x62, 0x61, 0x78,   1, 1, 1, 0x62, 0x79,   1, 1, 1, 0x63, 0x7a,
      0, 0, 0, 0,   16, 0, 0, 0,   2, 0, 0, 0]"

definition block6 :: Block where
  "block6 = \<lparr>data = block6_bytes, size_b = 44, comp = bytewise, num_restart = 2, data_end = 32\<rparr>"

text \<open>
  A block whose second entry is cut off inside its first length field: the entry
  \<open>a\<close> with an empty value, then the byte \<open>0x80\<close>, which announces a further byte.
\<close>

definition block_cut_bytes :: "byte list" where
  "block_cut_bytes = [0, 1, 0, 0x61,   0x80,   0, 0, 0, 0,   1, 0, 0, 0]"

definition block_cut :: Block where
  "block_cut = \<lparr>data = block_cut_bytes, size_b = 13, comp = bytewise, num_restart = 1, data_end = 5\<rparr>"

subsection \<open>Notions used to state the properties of the block\<close>

text \<open>
  The three length fields of the entry at the offset \<open>p\<close>, as \<open>init\<close> and
  \<open>keyAtRestartPoint\<close> decode them, with the slice that is left after them.
\<close>

definition lengths_at :: "Block \<Rightarrow> nat \<Rightarrow> error + nat \<times> nat \<times> nat \<times> Slice" where
  "lengths_at b p =
     bindE (GetVar32 (data b) \<lparr>RawData = p, Len = data_end b - p\<rparr>) (\<lambda>(sh, buf1).
     bindE (GetVar32 (data b) buf1) (\<lambda>(un, buf2).
     bindE (GetVar32 (data b) buf2) (\<lambda>(vl, buf3).
     Inr (sh, un, vl, buf3))))"

text \<open>
  A decoded entry: the offset at which it starts, its three lengths, and the offset and
  the length of the slice after its header; \<open>e_buf\<close> and \<open>e_buf_len\<close> are the
  \<open>buf_\<close> and \<open>buf_len_\<close> of a cursor on the entry.
\<close>

record Entry =
  e_pos :: nat
  e_shared :: nat
  e_unshared :: nat
  e_value_len :: nat
  e_buf :: nat
  e_buf_len :: nat

definition entry_at :: "Block \<Rightarrow> nat \<Rightarrow> Entry option" where
  "entry_at b p =
     (if p < data_end b
      then (case lengths_at b p of
              Inl e \<Rightarrow> None
            | Inr (sh, un, vl, s) \<Rightarrow>
                Some \<lparr>e_pos = p, e_shared = sh, e_unshared = un, e_value_len = vl,
                      e_buf = RawData s, e_buf_len = Len s\<rparr>)
      else None)"

text \<open>
  \<open>decodes_to b p es\<close>: the bytes from \<open>p\<close> to \<open>data_end_\<close> are exactly the entries
  \<open>es\<close>, each with its key bytes and its value inside the entries' region.
\<close>

fun decodes_to :: "Block \<Rightarrow> nat \<Rightarrow> Entry list \<Rightarrow> bool" where
  "decodes_to b p [] = (p = data_end b)"
| "decodes_to b p (e # es) =
     (entry_at b p = Some e \<and> e_unshared e + e_value_len e \<le> e_buf_len e \<and>
      decodes_to b (e_buf e + e_unshared e + e_value_len e) es)"

text \<open>
  The full keys of the entries: the first \<open>shared\<close> bytes of the previous full key, then
  the stored unshared bytes.
\<close>

fun full_keys :: "byte list \<Rightarrow> byte list \<Rightarrow> Entry list \<Rightarrow> byte list list" where
  "full_keys d prev [] = []"
| "full_keys d prev (e # es) =
     (take (e_shared e) prev @ take (e_unshared e) (drop (e_buf e) d)) #
     full_keys d (take (e_shared e) prev @ take (e_unshared e) (drop (e_buf e) d)) es"

text \<open>
  The reference of the spec, a linear scan over all decoded entries with their full
  keys: \<open>linear_lower_bound\<close> is the first entry whose key is not less than the target,
  \<open>linear_find\<close> the first entry whose key equals it.
\<close>

definition linear_lower_bound :: "(byte list \<Rightarrow> byte list \<Rightarrow> int) \<Rightarrow> byte list \<Rightarrow> (Entry \<times> byte list) list \<Rightarrow> (Entry \<times> byte list) option" where
  "linear_lower_bound c target eks = List.find (\<lambda>(e, k). 0 \<le> c k target) eks"

definition linear_find :: "(byte list \<Rightarrow> byte list \<Rightarrow> int) \<Rightarrow> byte list \<Rightarrow> (Entry \<times> byte list) list \<Rightarrow> (Entry \<times> byte list) option" where
  "linear_find c target eks = List.find (\<lambda>(e, k). c k target = 0) eks"

text \<open>
  A cursor is the result of a linear scan when it is on the entry that the scan found, or
  is the end cursor when the scan found none: cursors are compared by their offset.
\<close>

definition cursor_on :: "Block \<Rightarrow> BlockConstIterator \<Rightarrow> (Entry \<times> byte list) option \<Rightarrow> bool" where
  "cursor_on b it r =
     (case r of
        None \<Rightarrow> buf it = data_end b \<and> buf_len it = 0
      | Some (e, k) \<Rightarrow> buf it = e_buf e \<and> buf_len it = e_buf_len e)"

text \<open>
  The restart invariants of a block with the entries \<open>es\<close> and the keys \<open>ks\<close>: the
  entries decode, the keys are the full keys and strictly increase, and the restart
  offsets are the offsets of the entries \<open>M 0 < M 1 < \<dots>\<close>, which share no prefix, the
  first of them the first entry.  There are at most \<open>2^30\<close> restart points, so that the
  \<open>int\<close> indices of the search hold every sum \<open>lb + rb\<close>.
\<close>

definition restart_invariants :: "Block \<Rightarrow> Entry list \<Rightarrow> byte list list \<Rightarrow> (nat \<Rightarrow> nat) \<Rightarrow> bool" where
  "restart_invariants b es ks M \<longleftrightarrow>
     data_end b \<le> length (data b) \<and> decodes_to b 0 es \<and> es \<noteq> [] \<and>
     ks = full_keys (data b) [] es \<and> sorted_wrt (\<lambda>x y. comp b x y < 0) ks \<and>
     0 < num_restart b \<and> num_restart b \<le> 2 ^ 30 \<and> M 0 = 0 \<and>
     (\<forall>i j. i < j \<and> j < num_restart b \<longrightarrow> M i < M j) \<and>
     (\<forall>i<num_restart b. M i < length es \<and> restartPoint b i = Inr (e_pos (es ! M i)) \<and>
                         e_shared (es ! M i) = 0)"

text \<open>
  The block with the keys \<open>aa\<close>, \<open>ab\<close>, \<open>ba\<close>, \<open>bb\<close> in two restart groups of two
  entries, at the offsets 0 and 11.
\<close>

definition block4_bytes :: "byte list" where
  "block4_bytes =
     [0, 2, 1, 0x61, 0x61, 0x78,   1, 1, 1, 0x62, 0x79,
      0, 2, 1, 0x62, 0x61, 0x78,   1, 1, 1, 0x62, 0x79,
      0, 0, 0, 0,   11, 0, 0, 0,   2, 0, 0, 0]"

definition block4 :: Block where
  "block4 = \<lparr>data = block4_bytes, size_b = 34, comp = bytewise, num_restart = 2, data_end = 22\<rparr>"

text \<open>A cursor on the entry \<open>e\<close>: its position and lengths are those of the entry.\<close>

definition on_entry :: "BlockConstIterator \<Rightarrow> Entry \<Rightarrow> bool" where
  "on_entry it e \<longleftrightarrow>
     buf it = e_buf e \<and> buf_len it = e_buf_len e \<and> shared it = e_shared e \<and>
     unshared it = e_unshared e \<and> value_len it = e_value_len e"

text \<open>
  A cursor of a scan at the index \<open>j\<close> of the entries: on the entry \<open>j\<close> with no key
  built yet, made at a restart entry or advanced from the entry before; or at the end.
\<close>

definition cursor_at :: "Block \<Rightarrow> Entry list \<Rightarrow> BlockConstIterator \<Rightarrow> nat \<Rightarrow> bool" where
  "cursor_at b es it j \<longleftrightarrow>
     (if j < length es
      then on_entry it (es ! j) \<and> key_str it = [] \<and>
           ((last_key it = None \<and> e_shared (es ! j) = 0 \<and> restart_pos it = e_pos (es ! j)) \<or>
            (0 < j \<and> last_key it = Some (e_buf (es ! (j - 1)))))
      else buf it = data_end b \<and> buf_len it = 0)"


text \<open>
  The decoded entries of the two example blocks; for the block with four keys also the
  full keys, and the index of the entry at which each restart group starts, which is
  every second entry.
\<close>

definition block4_entries :: "Entry list" where
  "block4_entries =
     [\<lparr>e_pos = 0, e_shared = 0, e_unshared = 2, e_value_len = 1, e_buf = 3, e_buf_len = 19\<rparr>,
      \<lparr>e_pos = 6, e_shared = 1, e_unshared = 1, e_value_len = 1, e_buf = 9, e_buf_len = 13\<rparr>,
      \<lparr>e_pos = 11, e_shared = 0, e_unshared = 2, e_value_len = 1, e_buf = 14, e_buf_len = 8\<rparr>,
      \<lparr>e_pos = 17, e_shared = 1, e_unshared = 1, e_value_len = 1, e_buf = 20, e_buf_len = 2\<rparr>]"

definition block4_keys :: "byte list list" where
  "block4_keys = [[0x61, 0x61], [0x61, 0x62], [0x62, 0x61], [0x62, 0x62]]"

definition block4_group :: "nat \<Rightarrow> nat" where
  "block4_group i = 2 * i"

definition block6_entries :: "Entry list" where
  "block6_entries =
     [\<lparr>e_pos = 0, e_shared = 0, e_unshared = 2, e_value_len = 1, e_buf = 3, e_buf_len = 29\<rparr>,
      \<lparr>e_pos = 6, e_shared = 1, e_unshared = 1, e_value_len = 1, e_buf = 9, e_buf_len = 23\<rparr>,
      \<lparr>e_pos = 11, e_shared = 1, e_unshared = 1, e_value_len = 1, e_buf = 14, e_buf_len = 18\<rparr>,
      \<lparr>e_pos = 16, e_shared = 0, e_unshared = 2, e_value_len = 1, e_buf = 19, e_buf_len = 13\<rparr>,
      \<lparr>e_pos = 22, e_shared = 1, e_unshared = 1, e_value_len = 1, e_buf = 25, e_buf_len = 7\<rparr>,
      \<lparr>e_pos = 27, e_shared = 1, e_unshared = 1, e_value_len = 1, e_buf = 30, e_buf_len = 2\<rparr>]"
section \<open>Properties of the skip list\<close>

lemma seg_append: "seg h l p (xs @ ys) q \<longleftrightarrow> (\<exists>r. seg h l p xs r \<and> seg h l r ys q)"
  by (induction xs arbitrary: p) auto

lemma seg_bound: "seg h l p xs q \<Longrightarrow> a \<in> set xs \<Longrightarrow> a < length h \<and> l < length (forward (h ! a))"
  by (induction xs arbitrary: p) auto

lemma seg_hd: "seg h l p xs None \<Longrightarrow> p = (case xs of [] \<Rightarrow> None | a # _ \<Rightarrow> Some a)"
  by (cases xs) auto

lemma seg_suffix:
  "seg h l p (as @ a # bs) q \<Longrightarrow> seg h l (forward (h ! a) ! l) bs q"
  by (auto simp: seg_append)

lemma advance_seg:
  assumes "seg (nodes s) l (forward (nodes s ! x) ! l) ys None"
    and "x < length (nodes s)" and "l < length (forward (nodes s ! x))"
  shows "advance s go l x = Some (last (x # takeWhile (\<lambda>a. go (key (nodes s ! a))) ys))"
  using assms
proof (induction ys arbitrary: x)
  case Nil
  then show ?case by (subst advance.simps) (simp add: Next_def)
next
  case (Cons a ys)
  from Cons.prems have a: "forward (nodes s ! x) ! l = Some a" "a < length (nodes s)"
    "l < length (forward (nodes s ! a))" "seg (nodes s) l (forward (nodes s ! a) ! l) ys None"
    by auto
  show ?case
  proof (cases "go (key (nodes s ! a))")
    case True
    have "advance s go l x = advance s go l a"
      by (subst advance.simps) (simp add: Next_def key_of_def Cons.prems a True)
    also have "\<dots> = Some (last (a # takeWhile (\<lambda>a. go (key (nodes s ! a))) ys))"
      by (rule Cons.IH[OF a(4) a(2) a(3)])
    finally show ?thesis using True by simp
  next
    case False
    then show ?thesis
      by (subst advance.simps) (simp add: Next_def key_of_def Cons.prems a)
  qed
qed

lemma takeWhile_down_closed:
  assumes "sorted_wrt lt (map f xs)" and "\<forall>a b. lt a b \<longrightarrow> go b \<longrightarrow> go a"
    and "xs = as @ x # bs" and "go (f x)"
  shows "takeWhile (\<lambda>a. go (f a)) xs = as @ x # takeWhile (\<lambda>a. go (f a)) bs"
proof -
  from assms(1,3) have "\<forall>a\<in>set as. lt (f a) (f x)"
    by (auto simp: sorted_wrt_append)
  with assms(2,4) have "\<forall>a\<in>set as. go (f a)" by blast
  then show ?thesis using assms(3,4) by (simp add: takeWhile_append2)
qed

lemma pred_at_cases:
  "pred_at s go xs = 0 \<or> (pred_at s go xs \<in> set xs \<and> go (key (nodes s ! pred_at s go xs)))"
proof (cases "takeWhile (\<lambda>a. go (key (nodes s ! a))) xs = []")
  case True
  then show ?thesis by (simp add: pred_at_def)
next
  case False
  then have "last (takeWhile (\<lambda>a. go (key (nodes s ! a))) xs) \<in> set (takeWhile (\<lambda>a. go (key (nodes s ! a))) xs)"
    by simp
  then have "last (takeWhile (\<lambda>a. go (key (nodes s ! a))) xs) \<in> set xs \<and>
      go (key (nodes s ! last (takeWhile (\<lambda>a. go (key (nodes s ! a))) xs)))"
    by (rule set_takeWhileD)
  then show ?thesis using False by (simp add: pred_at_def)
qed

lemma advance_level:
  assumes inv: "sl_inv s L" and l: "l < MaxLevel"
    and dc: "\<forall>a b. compare s a b \<longrightarrow> go b \<longrightarrow> go a"
    and x: "x = 0 \<or> (x \<in> set (L l) \<and> go (key (nodes s ! x)))"
  shows "advance s go l x = Some (pred_at s go (L l))"
proof -
  from inv l have sh: "nodes s \<noteq> []" "length (forward (nodes s ! 0)) = MaxLevel"
    "seg (nodes s) l (forward (nodes s ! 0) ! l) (L l) None"
    and so: "sorted_wrt (compare s) (map (\<lambda>a. key (nodes s ! a)) (L l))"
    by (auto simp: sl_inv_def sl_shape_def)
  show ?thesis
  proof (cases "x = 0")
    case True
    then show ?thesis using advance_seg[OF _ _ _, of s l 0 "L l" go] sh l
      by (simp add: pred_at_def)
  next
    case False
    with x have xin: "x \<in> set (L l)" and gx: "go (key (nodes s ! x))" by auto
    from xin obtain as bs where split: "L l = as @ x # bs" by (meson split_list)
    have tw: "takeWhile (\<lambda>a. go (key (nodes s ! a))) (L l)
                = as @ x # takeWhile (\<lambda>a. go (key (nodes s ! a))) bs"
      by (rule takeWhile_down_closed[OF so dc split gx])
    from sh(3) split have sg: "seg (nodes s) l (forward (nodes s ! x) ! l) bs None"
      by (auto simp: seg_append)
    from seg_bound[OF sh(3) xin] have b: "x < length (nodes s)" "l < length (forward (nodes s ! x))"
      by auto
    show ?thesis using advance_seg[OF sg b, of go] tw by (simp add: pred_at_def)
  qed
qed

lemma pred_at_descend:
  assumes inv: "sl_inv s L" and "Suc l < MaxLevel"
  shows "pred_at s go (L (Suc l)) = 0 \<or>
         (pred_at s go (L (Suc l)) \<in> set (L l) \<and> go (key (nodes s ! pred_at s go (L (Suc l)))))"
  using pred_at_cases[of s go "L (Suc l)"] assms by (auto simp: sl_inv_def)

lemma Find_search_spec:
  assumes inv: "sl_inv s L" and dc: "\<forall>a b. compare s a b \<longrightarrow> compare s b k \<longrightarrow> compare s a k"
    and n: "0 < n" "n \<le> MaxLevel"
    and x: "x = 0 \<or> (n < MaxLevel \<and> x = pred_at s (\<lambda>nk. compare s nk k) (L n))"
  shows "Find_search s k n x = Some (pred_at s (\<lambda>nk. compare s nk k) (L 0))"
  using n x
proof (induction n arbitrary: x)
  case 0
  then show ?case by simp
next
  case (Suc n)
  have "x = 0 \<or> (x \<in> set (L n) \<and> compare s (key (nodes s ! x)) k)"
    using Suc.prems(3) pred_at_descend[OF inv, of n "\<lambda>nk. compare s nk k"] by auto
  then have a: "advance s (\<lambda>nk. compare s nk k) n x = Some (pred_at s (\<lambda>nk. compare s nk k) (L n))"
    using advance_level[OF inv _ dc, of n x] Suc.prems(2) by simp
  show ?case
  proof (cases n)
    case 0
    then show ?thesis using a by simp
  next
    case (Suc m)
    then show ?thesis using a Suc.IH[of "pred_at s (\<lambda>nk. compare s nk k) (L n)"] Suc.prems(2)
      by simp
  qed
qed


lemma Insert_search_spec:
  assumes inv: "sl_inv s L" and dc: "\<forall>a b. compare s a b \<longrightarrow> compare s b k \<longrightarrow> compare s a k"
    and n: "n \<le> MaxLevel"
    and x: "x = 0 \<or> (n < MaxLevel \<and> x = pred_at s (\<lambda>nk. compare s nk k) (L n))"
  shows "Insert_search s k n x update =
           Some (if n = 0 then x else pred_at s (\<lambda>nk. compare s nk k) (L 0),
                 (\<lambda>l. if l < n then Some (pred_at s (\<lambda>nk. compare s nk k) (L l)) else update l))"
  using n x
proof (induction n arbitrary: x update)
  case 0
  then show ?case by simp
next
  case (Suc n)
  let ?p = "\<lambda>l. pred_at s (\<lambda>nk. compare s nk k) (L l)"
  have "x = 0 \<or> (x \<in> set (L n) \<and> compare s (key (nodes s ! x)) k)"
    using Suc.prems(2) pred_at_descend[OF inv, of n "\<lambda>nk. compare s nk k"] by auto
  then have a: "advance s (\<lambda>nk. compare s nk k) n x = Some (?p n)"
    using advance_level[OF inv _ dc, of n x] Suc.prems(1) by simp
  have ih: "Insert_search s k n (?p n) (update(n \<mapsto> ?p n)) =
           Some (if n = 0 then ?p n else ?p 0,
                 (\<lambda>l. if l < n then Some (?p l) else (update(n \<mapsto> ?p n)) l))"
    by (rule Suc.IH) (use Suc.prems(1) in simp_all)
  have f: "(\<lambda>l. if l < n then Some (?p l) else (update(n \<mapsto> ?p n)) l) =
           (\<lambda>l. if l < Suc n then Some (?p l) else update l)"
    by (auto simp: fun_eq_iff less_Suc_eq)
  have e: "(if n = 0 then ?p n else ?p 0) = ?p 0" by simp
  show ?case using a ih unfolding f e by simp
qed

lemma seg_last:
  "seg h l p (xs @ [a]) r \<Longrightarrow> a < length h \<and> l < length (forward (h ! a)) \<and> forward (h ! a) ! l = r"
  by (auto simp: seg_append)

lemma seg_dropWhile:
  assumes "seg h l p xs None"
  shows "seg h l (case dropWhile P xs of [] \<Rightarrow> None | a # _ \<Rightarrow> Some a) (dropWhile P xs) None"
proof -
  from assms have "seg h l p (takeWhile P xs @ dropWhile P xs) None" by simp
  then obtain r where "seg h l r (dropWhile P xs) None" unfolding seg_append by blast
  then show ?thesis using seg_hd by fastforce
qed

lemma Next_pred_at:
  assumes inv: "sl_inv s L" and l: "l < MaxLevel"
  shows "Next s (pred_at s go (L l)) l = Some (succ_at s go (L l))"
proof -
  let ?P = "\<lambda>a. go (key (nodes s ! a))"
  from inv l have sh: "nodes s \<noteq> []" "length (forward (nodes s ! 0)) = MaxLevel"
    "seg (nodes s) l (forward (nodes s ! 0) ! l) (L l) None"
    by (auto simp: sl_inv_def sl_shape_def)
  from sh(3) have "seg (nodes s) l (forward (nodes s ! 0) ! l) (takeWhile ?P (L l) @ dropWhile ?P (L l)) None"
    by simp
  then obtain r where r: "seg (nodes s) l (forward (nodes s ! 0) ! l) (takeWhile ?P (L l)) r"
    "seg (nodes s) l r (dropWhile ?P (L l)) None"
    unfolding seg_append by blast
  from r(2) have rs: "r = succ_at s go (L l)" unfolding succ_at_def by (rule seg_hd)
  show ?thesis
  proof (cases "takeWhile ?P (L l) = []")
    case True
    then show ?thesis using r(1) rs sh l by (simp add: pred_at_def Next_def)
  next
    case False
    then obtain ys a where ys: "takeWhile ?P (L l) = ys @ [a]"
      by (metis append_butlast_last_id)
    from r(1) have "seg (nodes s) l (forward (nodes s ! 0) ! l) (ys @ [a]) r" by (simp add: ys)
    from seg_last[OF this] show ?thesis using rs ys by (simp add: pred_at_def Next_def)
  qed
qed

lemma trans_dc: "strict_weak_order lt \<Longrightarrow> \<forall>a b. lt a b \<longrightarrow> lt b k \<longrightarrow> lt a k"
  unfolding strict_weak_order_def by blast

lemma trans_dc': "strict_weak_order lt \<Longrightarrow> \<forall>a b. lt a b \<longrightarrow> \<not> lt k b \<longrightarrow> \<not> lt k a"
  unfolding strict_weak_order_def by blast

lemma inv_height: "sl_inv s L \<Longrightarrow> 0 < height s \<and> height s \<le> MaxLevel"
  by (simp add: sl_inv_def)

lemma succ_at_in: "succ_at s go xs = Some a \<Longrightarrow> a \<in> set xs"
proof -
  assume "succ_at s go xs = Some a"
  then have "a \<in> set (dropWhile (\<lambda>a. go (key (nodes s ! a))) xs)"
    by (auto simp: succ_at_def split: list.splits)
  then show ?thesis by (rule set_dropWhileD)
qed

lemma Find_spec:
  assumes inv: "sl_inv s L" and swo: "strict_weak_order (compare s)"
  shows "Find s k = Some (case succ_at s (\<lambda>nk. compare s nk k) (L 0) of None \<Rightarrow> None
                          | Some a \<Rightarrow> if compare s k (key (nodes s ! a)) then None else Some a)"
proof -
  have l0: "0 < MaxLevel" by (simp add: MaxLevel_def)
  have fs: "Find_search s k (height s) 0 = Some (pred_at s (\<lambda>nk. compare s nk k) (L 0))"
    using Find_search_spec[OF inv trans_dc[OF swo], of "height s" 0] inv_height[OF inv] by simp
  have nx: "Next s (pred_at s (\<lambda>nk. compare s nk k) (L 0)) 0 = Some (succ_at s (\<lambda>nk. compare s nk k) (L 0))"
    by (rule Next_pred_at[OF inv l0])
  show ?thesis
  proof (cases "succ_at s (\<lambda>nk. compare s nk k) (L 0)")
    case None
    then show ?thesis using fs nx by (simp add: Find_def getHeight_def head_def)
  next
    case (Some a)
    then have "a \<in> set (L 0)" by (rule succ_at_in)
    moreover from inv l0 have "seg (nodes s) 0 (forward (nodes s ! 0) ! 0) (L 0) None"
      by (auto simp: sl_inv_def sl_shape_def)
    ultimately have "a < length (nodes s)" using seg_bound by blast
    then show ?thesis using fs nx Some
      by (simp add: Find_def getHeight_def head_def key_of_def End_def)
  qed
qed


lemma LowerBound_loop_spec:
  assumes inv: "sl_inv s L" and dc: "\<forall>a b. compare s a b \<longrightarrow> compare s b k \<longrightarrow> compare s a k"
    and n: "0 < n" "n \<le> MaxLevel"
    and x: "x = 0 \<or> (n < MaxLevel \<and> x = pred_at s (\<lambda>nk. compare s nk k) (L n))"
  shows "LowerBound_loop s k n x = Some (succ_at s (\<lambda>nk. compare s nk k) (L 0))"
  using n x
proof (induction n arbitrary: x)
  case 0
  then show ?case by simp
next
  case (Suc n)
  let ?p = "\<lambda>l. pred_at s (\<lambda>nk. compare s nk k) (L l)"
  have "x = 0 \<or> (x \<in> set (L n) \<and> compare s (key (nodes s ! x)) k)"
    using Suc.prems(3) pred_at_descend[OF inv, of n "\<lambda>nk. compare s nk k"] by auto
  then have a: "advance s (\<lambda>nk. compare s nk k) n x = Some (?p n)"
    using advance_level[OF inv _ dc, of n x] Suc.prems(2) by simp
  show ?case
  proof (cases "n = 0")
    case True
    then show ?thesis using a Next_pred_at[OF inv, of 0 "\<lambda>nk. compare s nk k"]
      by (simp add: MaxLevel_def)
  next
    case False
    have "LowerBound_loop s k n (?p n) = Some (succ_at s (\<lambda>nk. compare s nk k) (L 0))"
      by (rule Suc.IH) (use Suc.prems(2) False in simp_all)
    then show ?thesis using a False by simp
  qed
qed

lemma UpperBound_loop_spec:
  assumes inv: "sl_inv s L" and dc: "\<forall>a b. compare s a b \<longrightarrow> \<not> compare s k b \<longrightarrow> \<not> compare s k a"
    and n: "0 < n" "n \<le> MaxLevel"
    and x: "x = 0 \<or> (n < MaxLevel \<and> x = pred_at s (\<lambda>nk. \<not> compare s k nk) (L n))"
  shows "UpperBound_loop s k n x = Some (succ_at s (\<lambda>nk. \<not> compare s k nk) (L 0))"
  using n x
proof (induction n arbitrary: x)
  case 0
  then show ?case by simp
next
  case (Suc n)
  let ?p = "\<lambda>l. pred_at s (\<lambda>nk. \<not> compare s k nk) (L l)"
  have "x = 0 \<or> (x \<in> set (L n) \<and> \<not> compare s k (key (nodes s ! x)))"
    using Suc.prems(3) pred_at_descend[OF inv, of n "\<lambda>nk. \<not> compare s k nk"] by auto
  then have a: "advance s (\<lambda>nk. \<not> compare s k nk) n x = Some (?p n)"
    using advance_level[OF inv _ dc, of n x] Suc.prems(2) by simp
  show ?case
  proof (cases "n = 0")
    case True
    then show ?thesis using a Next_pred_at[OF inv, of 0 "\<lambda>nk. \<not> compare s k nk"]
      by (simp add: MaxLevel_def)
  next
    case False
    have "UpperBound_loop s k n (?p n) = Some (succ_at s (\<lambda>nk. \<not> compare s k nk) (L 0))"
      by (rule Suc.IH) (use Suc.prems(2) False in simp_all)
    then show ?thesis using a False by simp
  qed
qed

lemma LowerBound_spec:
  assumes inv: "sl_inv s L" and swo: "strict_weak_order (compare s)"
  shows "LowerBound s k = Some (succ_at s (\<lambda>nk. compare s nk k) (L 0))"
  unfolding LowerBound_def getHeight_def head_def
  by (rule LowerBound_loop_spec[OF inv trans_dc[OF swo]]) (use inv_height[OF inv] in simp_all)

lemma UpperBound_spec:
  assumes inv: "sl_inv s L" and swo: "strict_weak_order (compare s)"
  shows "UpperBound s k = Some (succ_at s (\<lambda>nk. \<not> compare s k nk) (L 0))"
  unfolding UpperBound_def getHeight_def head_def
  by (rule UpperBound_loop_spec[OF inv trans_dc'[OF swo]]) (use inv_height[OF inv] in simp_all)

lemma traverse_seg:
  "seg (nodes s) 0 p xs None \<Longrightarrow> traverse s p = Some (map (\<lambda>a. key (nodes s ! a)) xs)"
proof (induction xs arbitrary: p)
  case Nil
  then show ?case by (subst traverse.simps) simp
next
  case (Cons a xs)
  then have "traverse s (forward (nodes s ! a) ! 0) = Some (map (\<lambda>a. key (nodes s ! a)) xs)"
    by simp
  then show ?case using Cons.prems
    by (subst traverse.simps) (simp add: key_of_def Next_def)
qed

lemma inv_chain0: "sl_inv s L \<Longrightarrow> seg (nodes s) 0 (forward (nodes s ! 0) ! 0) (L 0) None"
  by (simp add: sl_inv_def sl_shape_def MaxLevel_def)

lemma keys_of_spec:
  assumes inv: "sl_inv s L"
  shows "keys_of s = Some (map (\<lambda>a. key (nodes s ! a)) (L 0))"
proof -
  from inv have "Begin s = Some (forward (nodes s ! 0) ! 0)"
    by (simp add: Begin_def head_def Next_def sl_inv_def sl_shape_def MaxLevel_def)
  then show ?thesis using traverse_seg[OF inv_chain0[OF inv]] by (simp add: keys_of_def)
qed

lemma traverse_succ_at:
  assumes inv: "sl_inv s L"
  shows "traverse s (succ_at s go (L 0)) =
           Some (map (\<lambda>a. key (nodes s ! a)) (dropWhile (\<lambda>a. go (key (nodes s ! a))) (L 0)))"
  unfolding succ_at_def by (rule traverse_seg[OF seg_dropWhile[OF inv_chain0[OF inv]]])

lemma length_upd: "length (upd h a i v) = length h"
  by (simp add: upd_def)

lemma key_upd: "key (upd h a i v ! b) = key (h ! b)"
  by (cases "a < length h"; cases "a = b") (simp_all add: upd_def list_update_beyond)

lemma fwd_len_upd: "length (forward (upd h a i v ! b)) = length (forward (h ! b))"
  by (cases "a < length h"; cases "a = b") (simp_all add: upd_def list_update_beyond)

lemma fwd_upd_other: "j \<noteq> i \<Longrightarrow> forward (upd h a i v ! b) ! j = forward (h ! b) ! j"
  by (cases "a < length h"; cases "a = b") (simp_all add: upd_def list_update_beyond)

lemma fwd_upd_neq: "b \<noteq> a \<Longrightarrow> forward (upd h a i v ! b) = forward (h ! b)"
  by (simp add: upd_def)

lemma fwd_upd_same:
  "a < length h \<Longrightarrow> i < length (forward (h ! a)) \<Longrightarrow> forward (upd h a i v ! a) ! i = v"
  by (simp add: upd_def)

lemma seg_upd_other_level:
  "j \<noteq> i \<Longrightarrow> seg (upd h a i v) j p xs q = seg h j p xs q"
  by (induction xs arbitrary: p) (simp_all add: length_upd fwd_len_upd fwd_upd_other)

lemma seg_upd_notin:
  "a \<notin> set xs \<Longrightarrow> seg (upd h a i v) l p xs q = seg h l p xs q"
  by (induction xs arbitrary: p) (auto simp: length_upd fwd_len_upd fwd_upd_neq)

lemma seg_append_node: "seg h l p xs q \<Longrightarrow> seg (h @ [x]) l p xs q"
  by (induction xs arbitrary: p) (auto simp: nth_append)

lemma seg_link:
  assumes sg: "seg h i (forward (h ! 0) ! i) (pre @ post) None"
    and d: "distinct (pre @ post)" "0 \<notin> set (pre @ post)" "n \<notin> set (pre @ post)" "n \<noteq> 0"
    and b: "n < length h" "i < length (forward (h ! n))" "h \<noteq> []" "i < length (forward (h ! 0))"
    and u: "u = last (0 # pre)"
  shows "seg (upd (upd h n i (forward (h ! u) ! i)) u i (Some n)) i
           (forward (upd (upd h n i (forward (h ! u) ! i)) u i (Some n) ! 0) ! i) (pre @ n # post) None"
proof -
  let ?nx = "forward (h ! u) ! i"
  let ?h1 = "upd h n i ?nx"
  let ?h2 = "upd ?h1 u i (Some n)"
  from sg obtain r where r: "seg h i (forward (h ! 0) ! i) pre r" "seg h i r post None"
    unfolding seg_append by blast
  have lp: "pre \<noteq> [] \<Longrightarrow> u \<in> set pre" using u by simp
  have u0c: "pre = [] \<Longrightarrow> u = 0" using u by simp
  have upost: "u \<notin> set post" using d lp u0c by (cases "pre = []") auto
  have un: "u \<noteq> n" using d lp u0c by (cases "pre = []") auto
  have ub: "u < length h" "i < length (forward (h ! u))"
  proof -
    show "u < length h" using u b seg_bound[OF r(1)] by (cases "pre = []") auto
    show "i < length (forward (h ! u))" using u b seg_bound[OF r(1)] by (cases "pre = []") auto
  qed
  have rn: "r = ?nx"
  proof (cases "pre = []")
    case True
    then show ?thesis using r(1) u by simp
  next
    case False
    then have "pre = butlast pre @ [u]" using u by simp
    then have "seg h i (forward (h ! 0) ! i) (butlast pre @ [u]) r" using r(1) by simp
    from seg_last[OF this] show ?thesis by simp
  qed
  have post1: "seg ?h1 i ?nx post None"
    using r(2) d rn by (simp add: seg_upd_notin)
  have "forward (?h1 ! n) ! i = ?nx" using b by (simp add: fwd_upd_same)
  then have npost1: "seg ?h1 i (Some n) (n # post) None"
    using post1 b by (simp add: length_upd fwd_len_upd)
  have "u \<notin> set (n # post)" using un upost by simp
  from seg_upd_notin[OF this] npost1 have npost2: "seg ?h2 i (Some n) (n # post) None"
    by blast
  show ?thesis
  proof (cases "pre = []")
    case True
    then have "u = 0" using u by simp
    then have "forward (?h2 ! 0) ! i = Some n"
      using b by (simp add: fwd_upd_same length_upd fwd_len_upd)
    then show ?thesis using npost2 True by simp
  next
    case False
    then have pre: "pre = butlast pre @ [u]" using u by simp
    have u0: "u \<noteq> 0" using d False lp by auto
    have ubl: "u \<notin> set (butlast pre)" using d(1) pre
      by (metis disjoint_insert(1) distinct_append list.simps(15))
    have nbl: "n \<notin> set (butlast pre)" using d(3) by (auto dest: in_set_butlastD)
    from r(1) pre have "seg h i (forward (h ! 0) ! i) (butlast pre @ [u]) r" by simp
    then have s0: "seg h i (forward (h ! 0) ! i) (butlast pre) (Some u)"
      by (auto simp: seg_append)
    then have s1: "seg ?h1 i (forward (h ! 0) ! i) (butlast pre) (Some u)"
      using nbl by (simp add: seg_upd_notin)
    then have s2: "seg ?h2 i (forward (h ! 0) ! i) (butlast pre) (Some u)"
      using ubl by (simp add: seg_upd_notin)
    have h0: "forward (?h2 ! 0) ! i = forward (h ! 0) ! i"
      using u0 d(4) by (simp add: fwd_upd_neq)
    have "forward (?h2 ! u) ! i = Some n"
      using ub by (simp add: fwd_upd_same length_upd fwd_len_upd)
    then have su: "seg ?h2 i (Some u) (u # n # post) None"
      using npost2 ub seg.simps(2)[of ?h2 i "Some u" u "n # post" None]
      by (simp only: length_upd fwd_len_upd)
    have "seg ?h2 i (forward (?h2 ! 0) ! i) (butlast pre @ u # n # post) None"
      unfolding h0 seg_append using s2 su by blast
    then show ?thesis using pre by (metis append.assoc append_Cons append_Nil)
  qed
qed

lemma SetNext_upd:
  "x < length (nodes s) \<Longrightarrow> level < length (forward (nodes s ! x)) \<Longrightarrow>
   SetNext s x v level = Some (s\<lparr>nodes := upd (nodes s) x level v\<rparr>)"
  by (simp add: SetNext_def upd_def)

lemma shape_link:
  assumes sh: "sl_shape h Lc" and i: "i < level" "level \<le> MaxLevel"
    and n: "n < length h" "n \<noteq> 0" "length (forward (h ! n)) = level" "n \<notin> set (Lc i)"
    and u: "u = last (0 # takeWhile P (Lc i))"
  shows "sl_shape (upd (upd h n i (forward (h ! u) ! i)) u i (Some n)) (Lc(i := ins_node P n (Lc i)))"
proof -
  let ?h2 = "upd (upd h n i (forward (h ! u) ! i)) u i (Some n)"
  from sh have h: "h \<noteq> []" "length (forward (h ! 0)) = MaxLevel"
    and ch: "\<And>l. l < MaxLevel \<Longrightarrow> seg h l (forward (h ! 0) ! l) (Lc l) None \<and> 0 \<notin> set (Lc l) \<and> distinct (Lc l)"
    by (auto simp: sl_shape_def)
  have iM: "i < MaxLevel" using i by simp
  have a: "?h2 \<noteq> []" using h(1) by (metis length_upd length_0_conv)
  have b: "length (forward (?h2 ! 0)) = MaxLevel" using h(2) by (simp add: fwd_len_upd)
  have c: "seg ?h2 l (forward (?h2 ! 0) ! l) ((Lc(i := ins_node P n (Lc i))) l) None \<and>
           0 \<notin> set ((Lc(i := ins_node P n (Lc i))) l) \<and> distinct ((Lc(i := ins_node P n (Lc i))) l)"
    if l: "l < MaxLevel" for l
  proof (cases "l = i")
    case True
    have sg: "seg h i (forward (h ! 0) ! i) (takeWhile P (Lc i) @ dropWhile P (Lc i)) None"
      using ch[OF iM] by simp
    have d: "distinct (takeWhile P (Lc i) @ dropWhile P (Lc i))"
      "0 \<notin> set (takeWhile P (Lc i) @ dropWhile P (Lc i))"
      "n \<notin> set (takeWhile P (Lc i) @ dropWhile P (Lc i))"
      using ch[OF iM] n(4) by simp_all
    have "seg ?h2 i (forward (?h2 ! 0) ! i) (takeWhile P (Lc i) @ n # dropWhile P (Lc i)) None"
      by (rule seg_link[OF sg d n(2) n(1) _ h(1) _ u]) (use n(3) i h(2) in simp_all)
    moreover have "0 \<notin> set (takeWhile P (Lc i) @ n # dropWhile P (Lc i))"
      using ch[OF iM] n(2) by (auto dest: set_takeWhileD set_dropWhileD)
    moreover have "distinct (takeWhile P (Lc i) @ n # dropWhile P (Lc i))"
      using d(1)[unfolded distinct_append] n(4) by (auto dest: set_takeWhileD set_dropWhileD)
    ultimately show ?thesis using True by (simp add: ins_node_def)
  next
    case False
    then show ?thesis using ch[OF l] by (simp add: seg_upd_other_level fwd_upd_other)
  qed
  show ?thesis unfolding sl_shape_def using a b c by blast
qed

lemma Insert_link_spec:
  assumes "level - i = d" and "sl_shape (nodes s) Lc"
    and "n < length (nodes s)" "n \<noteq> 0" "length (forward (nodes s ! n)) = level" "level \<le> MaxLevel"
    and "\<forall>l. i \<le> l \<and> l < MaxLevel \<longrightarrow> n \<notin> set (Lc l)"
    and "\<forall>l. i \<le> l \<and> l < level \<longrightarrow> update l = Some (last (0 # takeWhile P (Lc l)))"
  shows "\<exists>s'. Insert_link s update n level i = Some s' \<and>
           sl_shape (nodes s') (\<lambda>l. if i \<le> l \<and> l < level then ins_node P n (Lc l) else Lc l) \<and>
           map key (nodes s') = map key (nodes s) \<and>
           height s' = height s \<and> compare s' = compare s \<and> gen s' = gen s"
  using assms
proof (induction d arbitrary: i s Lc)
  case 0
  then have "\<not> i < level" by simp
  then have "(\<lambda>l. if i \<le> l \<and> l < level then ins_node P n (Lc l) else Lc l) = Lc"
    by (auto simp: fun_eq_iff)
  then show ?case using 0 \<open>\<not> i < level\<close> by (subst Insert_link.simps) simp
next
  case (Suc d)
  then have i: "i < level" by simp
  let ?h = "nodes s"
  define u where "u = last (0 # takeWhile P (Lc i))"
  let ?nx = "forward (?h ! u) ! i"
  let ?s1 = "s\<lparr>nodes := upd ?h n i ?nx\<rparr>"
  let ?s2 = "s\<lparr>nodes := upd (upd ?h n i ?nx) u i (Some n)\<rparr>"
  let ?Lc = "Lc(i := ins_node P n (Lc i))"
  have iM: "i < MaxLevel" using i Suc.prems(6) by simp
  from Suc.prems(2) have h: "?h \<noteq> []" "length (forward (?h ! 0)) = MaxLevel"
    "seg ?h i (forward (?h ! 0) ! i) (Lc i) None"
    using iM by (auto simp: sl_shape_def)
  have ub: "u < length ?h \<and> i < length (forward (?h ! u))"
  proof (cases "takeWhile P (Lc i) = []")
    case True
    then show ?thesis using h iM by (simp add: u_def)
  next
    case False
    then have "u \<in> set (takeWhile P (Lc i))" by (simp add: u_def)
    then have "u \<in> set (Lc i)" by (rule set_takeWhileD[THEN conjunct1])
    then show ?thesis using seg_bound[OF h(3)] by simp
  qed
  have upd_i: "update i = Some u" using Suc.prems(8) i by (simp add: u_def)
  have nx: "Next s u i = Some ?nx" using ub by (simp add: Next_def)
  have s1: "SetNext s n ?nx i = Some ?s1"
    using Suc.prems(3,5) i by (simp add: SetNext_upd)
  have s2: "SetNext ?s1 u (Some n) i = Some ?s2"
    using ub by (simp add: SetNext_upd length_upd fwd_len_upd)
  have step: "Insert_link s update n level i = Insert_link ?s2 update n level (Suc i)"
    by (subst Insert_link.simps) (simp add: i upd_i nx s1 s2)
  have sh2: "sl_shape (nodes ?s2) ?Lc"
    using shape_link[OF Suc.prems(2) i Suc.prems(6) Suc.prems(3,4,5) _ u_def] Suc.prems(7) iM
    by simp
  have "\<exists>s'. Insert_link ?s2 update n level (Suc i) = Some s' \<and>
           sl_shape (nodes s') (\<lambda>l. if Suc i \<le> l \<and> l < level then ins_node P n (?Lc l) else ?Lc l) \<and>
           map key (nodes s') = map key (nodes ?s2) \<and>
           height s' = height ?s2 \<and> compare s' = compare ?s2 \<and> gen s' = gen ?s2"
  proof (rule Suc.IH[OF _ sh2])
    show "level - Suc i = d" using Suc.prems(1) by simp
    show "n < length (nodes ?s2)" using Suc.prems(3) by (simp add: length_upd)
    show "n \<noteq> 0" by (rule Suc.prems(4))
    show "length (forward (nodes ?s2 ! n)) = level" using Suc.prems(5) by (simp add: fwd_len_upd)
    show "level \<le> MaxLevel" by (rule Suc.prems(6))
    show "\<forall>l. Suc i \<le> l \<and> l < MaxLevel \<longrightarrow> n \<notin> set (?Lc l)" using Suc.prems(7) by simp
    show "\<forall>l. Suc i \<le> l \<and> l < level \<longrightarrow> update l = Some (last (0 # takeWhile P (?Lc l)))"
      using Suc.prems(8) by simp
  qed
  moreover have "(\<lambda>l. if Suc i \<le> l \<and> l < level then ins_node P n (?Lc l) else ?Lc l) =
                 (\<lambda>l. if i \<le> l \<and> l < level then ins_node P n (Lc l) else Lc l)"
    using i by (auto simp: fun_eq_iff)
  moreover have "map key (nodes ?s2) = map key ?h"
    by (rule nth_equalityI) (simp_all add: length_upd key_upd)
  ultimately show ?case unfolding step by auto
qed

lemma swo_irrefl: "strict_weak_order lt \<Longrightarrow> \<not> lt a a"
  by (simp add: strict_weak_order_def)

lemma swo_trans: "strict_weak_order lt \<Longrightarrow> lt a b \<Longrightarrow> lt b c \<Longrightarrow> lt a c"
  unfolding strict_weak_order_def by blast

lemma swo_equiv_trans:
  "strict_weak_order lt \<Longrightarrow> equiv lt a b \<Longrightarrow> equiv lt b c \<Longrightarrow> equiv lt a c"
  unfolding strict_weak_order_def equiv_def by blast

lemma equiv_sym: "equiv lt a b \<Longrightarrow> equiv lt b a"
  by (simp add: equiv_def)

lemma equiv_refl: "strict_weak_order lt \<Longrightarrow> equiv lt a a"
  by (simp add: equiv_def strict_weak_order_def)

lemma sorted_equiv_hd:
  assumes swo: "strict_weak_order lt" and "sorted_wrt lt ks"
  shows "(\<exists>x\<in>set ks. equiv lt x k) \<longleftrightarrow>
         (case dropWhile (\<lambda>x. lt x k) ks of [] \<Rightarrow> False | a # _ \<Rightarrow> \<not> lt k a)"
  using assms(2)
proof (induction ks)
  case Nil
  then show ?case by simp
next
  case (Cons x ks)
  show ?case
  proof (cases "lt x k")
    case True
    then have "\<not> equiv lt x k" by (simp add: equiv_def)
    then show ?thesis using Cons True by simp
  next
    case False
    have "(\<exists>y\<in>set (x # ks). equiv lt y k) \<longleftrightarrow> \<not> lt k x"
    proof
      assume "\<exists>y\<in>set (x # ks). equiv lt y k"
      then obtain y where y: "y = x \<or> y \<in> set ks" "equiv lt y k" by auto
      show "\<not> lt k x"
      proof
        assume kx: "lt k x"
        from y(1) show False
        proof
          assume "y = x" with y(2) kx show False by (simp add: equiv_def)
        next
          assume "y \<in> set ks"
          with Cons.prems have "lt x y" by simp
          with kx have "lt k y" using swo_trans[OF swo] by blast
          with y(2) show False by (simp add: equiv_def)
        qed
      qed
    next
      assume "\<not> lt k x"
      with False have "equiv lt x k" by (simp add: equiv_def)
      then show "\<exists>y\<in>set (x # ks). equiv lt y k" by simp
    qed
    then show ?thesis using False by simp
  qed
qed

lemma sorted_ins:
  assumes swo: "strict_weak_order lt" and "sorted_wrt lt ks" and "\<forall>x\<in>set ks. lt x k \<or> lt k x"
  shows "sorted_wrt lt (takeWhile (\<lambda>x. lt x k) ks @ k # dropWhile (\<lambda>x. lt x k) ks)"
  using assms(2,3)
proof (induction ks)
  case Nil
  then show ?case by simp
next
  case (Cons x ks)
  show ?case
  proof (cases "lt x k")
    case True
    have "\<forall>y\<in>set (takeWhile (\<lambda>x. lt x k) ks @ k # dropWhile (\<lambda>x. lt x k) ks). lt x y"
      using Cons.prems(1) True by (auto dest: set_takeWhileD set_dropWhileD)
    then show ?thesis using Cons True by simp
  next
    case False
    with Cons.prems(2) have kx: "lt k x" by simp
    have "\<forall>y\<in>set ks. lt k y"
    proof
      fix y assume "y \<in> set ks"
      with Cons.prems(1) have "lt x y" by simp
      with kx show "lt k y" using swo_trans[OF swo] by blast
    qed
    then show ?thesis using Cons.prems(1) False kx by simp
  qed
qed

lemma ins_key_sorted:
  assumes swo: "strict_weak_order lt" and "sorted_wrt lt ks"
  shows "sorted_wrt lt (ins_key lt k ks)"
proof (cases "\<exists>x\<in>set ks. equiv lt x k")
  case True
  then show ?thesis using assms(2) by (simp add: ins_key_def)
next
  case False
  then have "\<forall>x\<in>set ks. lt x k \<or> lt k x" by (auto simp: equiv_def)
  from sorted_ins[OF swo assms(2) this] False show ?thesis by (simp add: ins_key_def)
qed

lemma set_ins_key:
  "set (ins_key lt k ks) = (if \<exists>x\<in>set ks. equiv lt x k then set ks else insert k (set ks))"
proof -
  have "set (takeWhile (\<lambda>x. lt x k) ks @ k # dropWhile (\<lambda>x. lt x k) ks) =
        insert k (set (takeWhile (\<lambda>x. lt x k) ks @ dropWhile (\<lambda>x. lt x k) ks))"
    by (simp only: set_append list.set) blast
  then show ?thesis by (simp add: ins_key_def)
qed

lemma sorted_keys_sorted:
  "strict_weak_order lt \<Longrightarrow> sorted_wrt lt (sorted_keys lt ks)"
proof (induction ks rule: rev_induct)
  case Nil
  then show ?case by (simp add: sorted_keys_def)
next
  case (snoc k ks)
  then show ?case using ins_key_sorted[of lt "sorted_keys lt ks" k] by (simp add: sorted_keys_def)
qed

lemma sorted_keys_subset: "set (sorted_keys lt ks) \<subseteq> set ks"
proof (induction ks rule: rev_induct)
  case Nil
  then show ?case by (simp add: sorted_keys_def)
next
  case (snoc k ks)
  have "sorted_keys lt (ks @ [k]) = ins_key lt k (sorted_keys lt ks)"
    by (simp add: sorted_keys_def)
  then show ?case using snoc by (auto simp: set_ins_key split: if_splits)
qed

lemma sorted_keys_cover:
  assumes swo: "strict_weak_order lt"
  shows "(\<exists>x\<in>set (sorted_keys lt ks). equiv lt x k) \<longleftrightarrow> (\<exists>x\<in>set ks. equiv lt x k)"
proof (induction ks rule: rev_induct)
  case Nil
  then show ?case by (simp add: sorted_keys_def)
next
  case (snoc y ks)
  have e: "sorted_keys lt (ks @ [y]) = ins_key lt y (sorted_keys lt ks)"
    by (simp add: sorted_keys_def)
  show ?case
  proof (cases "\<exists>x\<in>set (sorted_keys lt ks). equiv lt x y")
    case True
    then obtain x where x: "x \<in> set (sorted_keys lt ks)" "equiv lt x y" by blast
    have "equiv lt y k \<Longrightarrow> equiv lt x k" using swo_equiv_trans[OF swo x(2)] by blast
    then show ?thesis using True snoc x(1) unfolding e by (auto simp: set_ins_key)
  next
    case False
    then show ?thesis using snoc unfolding e by (auto simp: set_ins_key)
  qed
qed

lemma randomLevel_loop_spec:
  "h \<le> MaxLevel \<Longrightarrow> randomLevel_loop h s = (level, s') \<Longrightarrow>
   h \<le> level \<and> level \<le> MaxLevel \<and> nodes s' = nodes s \<and> height s' = height s \<and> compare s' = compare s"
proof (induction h s rule: randomLevel_loop.induct)
  case (1 h s)
  show ?case
  proof (cases "h < MaxLevel \<and> gen s 0 = 0")
    case True
    let ?s1 = "s\<lparr>gen := (\<lambda>i. gen s (Suc i))\<rparr>"
    have r: "random s = (0, ?s1)" using True by (simp add: random_def)
    have "randomLevel_loop (Suc h) ?s1 = (level, s')"
      using "1.prems"(2) True r by (subst (asm) randomLevel_loop.simps) simp
    from "1.IH"[OF _ r[symmetric] _ _ this] True show ?thesis by simp
  next
    case False
    then show ?thesis using "1.prems"
      by (subst (asm) randomLevel_loop.simps) (auto simp: random_def split: if_splits)
  qed
qed

lemma randomLevel_spec:
  "randomLevel s = (level, s') \<Longrightarrow>
   1 \<le> level \<and> level \<le> MaxLevel \<and> nodes s' = nodes s \<and> height s' = height s \<and> compare s' = compare s"
  unfolding randomLevel_def using randomLevel_loop_spec[of 1 s level s'] by (simp add: MaxLevel_def)

lemma Insert_fill_spec:
  "Insert_fill update i level = (\<lambda>l. if i \<le> l \<and> l < level then Some head else update l)"
proof (induction update i level rule: Insert_fill.induct)
  case (1 update i level)
  show ?case
  proof (cases "i < level")
    case True
    have ih: "Insert_fill (update(i \<mapsto> head)) (Suc i) level =
        (\<lambda>l. if Suc i \<le> l \<and> l < level then Some head else (update(i \<mapsto> head)) l)"
      by (rule 1[OF True])
    have "Insert_fill update i level = Insert_fill (update(i \<mapsto> head)) (Suc i) level"
      using True by (subst Insert_fill.simps) simp
    also have "\<dots> = (\<lambda>l. if i \<le> l \<and> l < level then Some head else update l)"
      unfolding ih using True by (auto simp: fun_eq_iff)
    finally show ?thesis .
  next
    case False
    then show ?thesis by (subst Insert_fill.simps) (auto simp: fun_eq_iff)
  qed
qed

lemma shape_append_node:
  assumes "sl_shape h L"
  shows "sl_shape (h @ [x]) L"
proof -
  from assms have "h \<noteq> []" by (simp add: sl_shape_def)
  then have "(h @ [x]) ! 0 = h ! 0" by (simp add: nth_append)
  then show ?thesis using assms by (auto simp: sl_shape_def intro: seg_append_node)
qed

lemma shape_bound: "sl_shape h L \<Longrightarrow> l < MaxLevel \<Longrightarrow> a \<in> set (L l) \<Longrightarrow> a < length h"
  unfolding sl_shape_def using seg_bound by blast

lemma inv_subset0: "sl_inv s L \<Longrightarrow> l < MaxLevel \<Longrightarrow> set (L l) \<subseteq> set (L 0)"
proof (induction l)
  case 0
  then show ?case by simp
next
  case (Suc l)
  then have "set (L (Suc l)) \<subseteq> set (L l)" by (simp add: sl_inv_def)
  then show ?case using Suc by auto
qed

lemma succ_at_keys:
  "map_option (\<lambda>a. key (nodes s ! a)) (succ_at s go xs) =
     (case dropWhile go (map (\<lambda>a. key (nodes s ! a)) xs) of [] \<Rightarrow> None | a # _ \<Rightarrow> Some a)"
proof -
  have "dropWhile go (map (\<lambda>a. key (nodes s ! a)) xs) =
        map (\<lambda>a. key (nodes s ! a)) (dropWhile (\<lambda>a. go (key (nodes s ! a))) xs)"
    by (simp add: dropWhile_map o_def)
  moreover have "map_option f (case D of [] \<Rightarrow> None | a # _ \<Rightarrow> Some a) =
      (case map f D of [] \<Rightarrow> None | a # _ \<Rightarrow> Some a)" for f :: "nat \<Rightarrow> 'a" and D
    by (cases D) simp_all
  ultimately show ?thesis unfolding succ_at_def by simp
qed

lemma succ_at_equiv:
  assumes inv: "sl_inv s L" and swo: "strict_weak_order (compare s)"
  shows "(\<exists>x\<in>set (map (\<lambda>a. key (nodes s ! a)) (L 0)). equiv (compare s) x k) \<longleftrightarrow>
         (case succ_at s (\<lambda>nk. compare s nk k) (L 0) of None \<Rightarrow> False
          | Some a \<Rightarrow> \<not> compare s k (key (nodes s ! a)))"
proof -
  let ?ks = "map (\<lambda>a. key (nodes s ! a)) (L 0)"
  from inv have so: "sorted_wrt (compare s) ?ks"
    by (simp add: sl_inv_def MaxLevel_def)
  note sk = succ_at_keys[of s "\<lambda>nk. compare s nk k" "L 0"]
  show ?thesis
  proof (cases "dropWhile (\<lambda>x. compare s x k) ?ks")
    case Nil
    have "succ_at s (\<lambda>nk. compare s nk k) (L 0) = None"
      using sk by (simp only: Nil list.case) simp
    then show ?thesis unfolding sorted_equiv_hd[OF swo so] Nil by simp
  next
    case (Cons a' ys)
    then obtain z where "succ_at s (\<lambda>nk. compare s nk k) (L 0) = Some z" "key (nodes s ! z) = a'"
      using sk by (simp only: Cons list.case) auto
    then show ?thesis unfolding sorted_equiv_hd[OF swo so] Cons by simp
  qed
qed

lemma succ_at_not_less:
  assumes "succ_at s go xs = Some a"
  shows "\<not> go (key (nodes s ! a))"
proof -
  from assms obtain ys where "dropWhile (\<lambda>a. go (key (nodes s ! a))) xs = a # ys"
    by (auto simp: succ_at_def split: list.splits)
  then show ?thesis using hd_dropWhile[of "\<lambda>a. go (key (nodes s ! a))" xs] by simp
qed

lemma Insert_found:
  assumes inv: "sl_inv s L" and swo: "strict_weak_order (compare s)"
    and ex: "\<exists>x\<in>set (map (\<lambda>a. key (nodes s ! a)) (L 0)). equiv (compare s) x k"
  shows "\<exists>a. succ_at s (\<lambda>nk. compare s nk k) (L 0) = Some a \<and> a \<in> set (L 0) \<and>
             equiv (compare s) (key (nodes s ! a)) k \<and> Insert s k = Some (Some a, s)"
proof -
  let ?go = "\<lambda>nk. compare s nk k"
  from ex succ_at_equiv[OF inv swo, of k] obtain a where
    a: "succ_at s ?go (L 0) = Some a" "\<not> compare s k (key (nodes s ! a))"
    by (auto split: option.splits)
  have ain: "a \<in> set (L 0)" using a(1) by (rule succ_at_in)
  have nl: "\<not> compare s (key (nodes s ! a)) k" using a(1) by (rule succ_at_not_less)
  have al: "a < length (nodes s)"
    using shape_bound[of "nodes s" L 0 a] ain inv by (simp add: sl_inv_def MaxLevel_def)
  have isr: "Insert_search s k (height s) 0 Map.empty =
        Some (pred_at s ?go (L 0), (\<lambda>l. if l < height s then Some (pred_at s ?go (L l)) else None))"
    using Insert_search_spec[OF inv trans_dc[OF swo], where n="height s" and x=0 and update=Map.empty]
      inv_height[OF inv]
    by simp
  have nx: "Next s (pred_at s ?go (L 0)) 0 = Some (Some a)"
    using Next_pred_at[OF inv, of 0 ?go] a(1) by (simp add: MaxLevel_def)
  have "Insert s k = Some (Some a, s)"
    using isr nx al a(2) nl by (simp add: Insert_def getHeight_def head_def key_of_def keyEq_def)
  then show ?thesis using a(1) ain a(2) nl by (simp add: equiv_def)
qed

lemma keys_ins_node:
  assumes "\<forall>a\<in>set xs. f' a = f a" and "f' n = k"
  shows "map f' (ins_node (\<lambda>a. go (f a)) n xs) = takeWhile go (map f xs) @ k # dropWhile go (map f xs)"
proof -
  have "map f' (takeWhile (\<lambda>a. go (f a)) xs) = map f (takeWhile (\<lambda>a. go (f a)) xs)"
    using assms(1) by (auto dest: set_takeWhileD)
  moreover have "map f' (dropWhile (\<lambda>a. go (f a)) xs) = map f (dropWhile (\<lambda>a. go (f a)) xs)"
    using assms(1) by (auto dest: set_dropWhileD)
  ultimately show ?thesis using assms(2)
    by (simp add: ins_node_def takeWhile_map dropWhile_map o_def)
qed

lemma set_ins_node: "set (ins_node P n xs) = insert n (set xs)"
proof -
  have "set (takeWhile P xs @ n # dropWhile P xs) = insert n (set (takeWhile P xs @ dropWhile P xs))"
    by (simp only: set_append list.set) blast
  then show ?thesis by (simp add: ins_node_def)
qed

lemma Insert_new:
  assumes inv: "sl_inv s L" and swo: "strict_weak_order (compare s)"
    and nex: "\<not> (\<exists>x\<in>set (map (\<lambda>a. key (nodes s ! a)) (L 0)). equiv (compare s) x k)"
  shows "\<exists>s' L'. Insert s k = Some (Some (length (nodes s)), s') \<and> sl_inv s' L' \<and>
            compare s' = compare s \<and>
            map (\<lambda>a. key (nodes s' ! a)) (L' 0) =
              ins_key (compare s) k (map (\<lambda>a. key (nodes s ! a)) (L 0))"
proof -
  let ?go = "\<lambda>nk. compare s nk k"
  let ?f = "\<lambda>a. key (nodes s ! a)"
  let ?P = "\<lambda>a. ?go (?f a)"
  let ?n = "length (nodes s)"
  let ?upd0 = "\<lambda>l. if l < height s then Some (pred_at s ?go (L l)) else None"
  from inv have sh: "sl_shape (nodes s) L" and hne: "nodes s \<noteq> []"
    and hM: "0 < height s" "height s \<le> MaxLevel"
    and so: "\<And>l. l < MaxLevel \<Longrightarrow> sorted_wrt (compare s) (map ?f (L l))"
    and sub: "\<And>l. Suc l < MaxLevel \<Longrightarrow> set (L (Suc l)) \<subseteq> set (L l)"
    and emp: "\<And>l. height s \<le> l \<Longrightarrow> l < MaxLevel \<Longrightarrow> L l = []"
    by (auto simp: sl_inv_def sl_shape_def)
  have M0: "0 < MaxLevel" by (simp add: MaxLevel_def)
  have isr: "Insert_search s k (height s) 0 Map.empty = Some (pred_at s ?go (L 0), ?upd0)"
    using Insert_search_spec[OF inv trans_dc[OF swo], where n="height s" and x=0 and update=Map.empty]
      hM by simp
  have nx: "Next s (pred_at s ?go (L 0)) 0 = Some (succ_at s ?go (L 0))"
    by (rule Next_pred_at[OF inv M0])
  have sc: "case succ_at s ?go (L 0) of None \<Rightarrow> True | Some a \<Rightarrow> compare s k (?f a)"
    using succ_at_equiv[OF inv swo, of k] nex by (auto split: option.splits)
  have eqF: "(case succ_at s ?go (L 0) of None \<Rightarrow> Some False
              | Some a \<Rightarrow> key_of s a \<bind> (\<lambda>nk. Some (keyEq s k nk))) = Some False"
  proof (cases "succ_at s ?go (L 0)")
    case None
    then show ?thesis by simp
  next
    case (Some a)
    then have "a < ?n" using shape_bound[OF sh M0] succ_at_in by fast
    then show ?thesis using Some sc by (simp add: key_of_def keyEq_def)
  qed
  have fnd: "Find s k = Some End"
    using Find_spec[OF inv swo, of k] sc by (auto simp: End_def split: option.splits)
  obtain level s1 where rl: "randomLevel s = (level, s1)" by (cases "randomLevel s")
  from randomLevel_spec[OF rl] have lv: "1 \<le> level" "level \<le> MaxLevel"
    and s1: "nodes s1 = nodes s" "height s1 = height s" "compare s1 = compare s"
    by auto
  define update1 where "update1 = (if level > height s then Insert_fill ?upd0 (height s) level else ?upd0)"
  define s2 where "s2 = (if level > height s then s1\<lparr>height := level\<rparr> else s1)"
  define s3 where "s3 = s2\<lparr>nodes := nodes s2 @ [\<lparr>key = k, forward = replicate level None\<rparr>]\<rparr>"
  have s2: "nodes s2 = nodes s" "compare s2 = compare s" "height s2 = max level (height s)"
    using s1 by (auto simp: s2_def)
  have s3: "nodes s3 = nodes s @ [\<lparr>key = k, forward = replicate level None\<rparr>]"
    "compare s3 = compare s" "height s3 = max level (height s)"
    using s2 by (auto simp: s3_def)
  have mk: "Make s2 k level = (?n, s3)" by (simp add: Make_def s3_def s2)
  have fresh: "?n \<notin> set (L l)" if "l < MaxLevel" for l
    using shape_bound[OF sh that, of ?n] by auto
  have upd1: "update1 l = Some (last (0 # takeWhile ?P (L l)))" if "l < level" for l
  proof (cases "l < height s")
    case True
    then show ?thesis by (simp add: update1_def Insert_fill_spec pred_at_def)
  next
    case False
    then have "L l = []" using emp[of l] that lv(2) by simp
    then show ?thesis using False that by (simp add: update1_def Insert_fill_spec head_def)
  qed
  have "\<exists>s'. Insert_link s3 update1 ?n level 0 = Some s' \<and>
           sl_shape (nodes s') (\<lambda>l. if 0 \<le> l \<and> l < level then ins_node ?P ?n (L l) else L l) \<and>
           map key (nodes s') = map key (nodes s3) \<and>
           height s' = height s3 \<and> compare s' = compare s3 \<and> gen s' = gen s3"
  proof (rule Insert_link_spec[where d=level])
    show "level - 0 = level" by simp
    show "sl_shape (nodes s3) L" unfolding s3 by (rule shape_append_node[OF sh])
    show "?n < length (nodes s3)" by (simp add: s3)
    show "?n \<noteq> 0" using hne by simp
    show "length (forward (nodes s3 ! ?n)) = level" by (simp add: s3)
    show "level \<le> MaxLevel" by (rule lv(2))
    show "\<forall>l. 0 \<le> l \<and> l < MaxLevel \<longrightarrow> ?n \<notin> set (L l)" using fresh by simp
    show "\<forall>l. 0 \<le> l \<and> l < level \<longrightarrow> update1 l = Some (last (0 # takeWhile ?P (L l)))"
      using upd1 by simp
  qed
  then obtain s4 where lk: "Insert_link s3 update1 ?n level 0 = Some s4"
    and sh4: "sl_shape (nodes s4) (\<lambda>l. if l < level then ins_node ?P ?n (L l) else L l)"
    and k4: "map key (nodes s4) = map key (nodes s3)"
    and f4: "height s4 = height s3" "compare s4 = compare s3"
    by auto
  let ?L' = "\<lambda>l. if l < level then ins_node ?P ?n (L l) else L l"
  let ?f4 = "\<lambda>a. key (nodes s4 ! a)"
  have len4: "length (nodes s4) = Suc ?n" using k4 s3(1) by (metis length_map length_append_singleton)
  have key4: "?f4 a = (map key (nodes s3)) ! a" if "a \<le> ?n" for a
    using that len4 k4 by (metis nth_map le_imp_less_Suc)
  have key4_old: "?f4 a = ?f a" if "a < ?n" for a
    using key4[of a] that by (simp add: s3 nth_append)
  have key4_new: "?f4 ?n = k" using key4[of ?n] by (simp add: s3 nth_append)
  have ins: "Insert s k = Some (Some ?n, s4)"
  proof (cases "height s < level")
    case True
    then show ?thesis
      unfolding Insert_def getHeight_def head_def
      using isr nx eqF fnd rl mk lk s1
      by (simp add: update1_def s2_def)
  next
    case False
    then show ?thesis
      unfolding Insert_def getHeight_def head_def
      using isr nx eqF fnd rl mk lk s1
      by (simp add: update1_def s2_def)
  qed
  have keys_old: "map ?f4 (L l) = map ?f (L l)" if "l < MaxLevel" for l
    using shape_bound[OF sh that] key4_old by simp
  have keys_new: "map ?f4 (ins_node ?P ?n (L l)) =
      takeWhile ?go (map ?f (L l)) @ k # dropWhile ?go (map ?f (L l))" if "l < MaxLevel" for l
    by (rule keys_ins_node) (use shape_bound[OF sh that] key4_old key4_new in auto)
  have ne_l: "\<forall>x\<in>set (map ?f (L l)). compare s x k \<or> compare s k x" if "l < MaxLevel" for l
    using inv_subset0[OF inv that] nex by (auto simp: equiv_def)
  have inv4: "sl_inv s4 ?L'"
    unfolding sl_inv_def
  proof (intro conjI allI impI)
    show "sl_shape (nodes s4) ?L'" by (rule sh4)
    show "1 \<le> height s4" using f4 s3 lv by simp
    show "height s4 \<le> MaxLevel" using f4 s3 lv hM by simp
    show "sorted_wrt (compare s4) (map ?f4 (?L' l))" if "l < MaxLevel" for l
    proof (cases "l < level")
      case True
      then show ?thesis using sorted_ins[OF swo so[OF that] ne_l[OF that]] f4 s3
        by (simp add: keys_new[OF that])
    next
      case False
      then show ?thesis using so[OF that] f4 s3 by (simp add: keys_old[OF that])
    qed
    show "set (?L' (Suc l)) \<subseteq> set (?L' l)" if "Suc l < MaxLevel" for l
      using sub[OF that] by (auto simp: set_ins_node)
    show "?L' l = []" if "height s4 \<le> l \<and> l < MaxLevel" for l
      using that emp[of l] f4 s3 by simp
  qed
  have "map ?f4 (?L' 0) = ins_key (compare s) k (map ?f (L 0))"
    using lv(1) nex by (simp add: ins_key_def keys_new[OF M0])
  with ins inv4 f4 s3 show ?thesis by auto
qed

lemma inv_new: "sl_inv (SkipList_new lt g k0) (\<lambda>l. [])"
  by (simp add: sl_inv_def sl_shape_def SkipList_new_def MaxLevel_def)

lemma ins_key_found: "\<exists>x\<in>set xs. equiv lt x k \<Longrightarrow> ins_key lt k xs = xs"
  by (simp add: ins_key_def)

lemma Insert_step:
  assumes inv: "sl_inv s L" and swo: "strict_weak_order (compare s)"
  shows "\<exists>it s' L'. Insert s k = Some (it, s') \<and> sl_inv s' L' \<and> compare s' = compare s \<and>
            map (\<lambda>a. key (nodes s' ! a)) (L' 0) =
              ins_key (compare s) k (map (\<lambda>a. key (nodes s ! a)) (L 0))"
proof (cases "\<exists>x\<in>set (map (\<lambda>a. key (nodes s ! a)) (L 0)). equiv (compare s) x k")
  case True
  from Insert_found[OF inv swo True] obtain a where "Insert s k = Some (Some a, s)" by blast
  then have "Insert s k = Some (Some a, s) \<and> sl_inv s L \<and> compare s = compare s \<and>
            map (\<lambda>a. key (nodes s ! a)) (L 0) =
              ins_key (compare s) k (map (\<lambda>a. key (nodes s ! a)) (L 0))"
    using inv ins_key_found[OF True] by simp
  then show ?thesis by blast
next
  case False
  from Insert_new[OF inv swo False] show ?thesis by blast
qed

lemma Insert_all_spec:
  assumes "sl_inv s L" and "strict_weak_order (compare s)"
  shows "\<exists>s' L'. Insert_all s ks = Some s' \<and> sl_inv s' L' \<and> compare s' = compare s \<and>
            map (\<lambda>a. key (nodes s' ! a)) (L' 0) =
              foldl (\<lambda>xs k. ins_key (compare s) k xs) (map (\<lambda>a. key (nodes s ! a)) (L 0)) ks"
  using assms
proof (induction ks arbitrary: s L)
  case Nil
  then show ?case by auto
next
  case (Cons k ks)
  from Insert_step[OF Cons.prems, of k] obtain it s1 L1 where
    s1: "Insert s k = Some (it, s1)" "sl_inv s1 L1" "compare s1 = compare s"
    "map (\<lambda>a. key (nodes s1 ! a)) (L1 0) = ins_key (compare s) k (map (\<lambda>a. key (nodes s ! a)) (L 0))"
    by blast
  have swo1: "strict_weak_order (compare s1)" using Cons.prems(2) s1(3) by simp
  from Cons.IH[OF s1(2) swo1] obtain s' L' where
    s': "Insert_all s1 ks = Some s'" "sl_inv s' L'" "compare s' = compare s1"
    "map (\<lambda>a. key (nodes s' ! a)) (L' 0) =
       foldl (\<lambda>xs k. ins_key (compare s1) k xs) (map (\<lambda>a. key (nodes s1 ! a)) (L1 0)) ks"
    by blast
  have "Insert_all s (k # ks) = Some s'" using s1(1) s'(1) by simp
  moreover have "compare s' = compare s" using s'(3) s1(3) by simp
  moreover have "map (\<lambda>a. key (nodes s' ! a)) (L' 0) =
       foldl (\<lambda>xs k. ins_key (compare s) k xs) (map (\<lambda>a. key (nodes s ! a)) (L 0)) (k # ks)"
    using s'(4) s1(3,4) by simp
  ultimately show ?case using s'(2) by blast
qed

lemma reach:
  assumes "strict_weak_order lt"
  shows "\<exists>s L. Insert_all (SkipList_new lt g k0) ks = Some s \<and> sl_inv s L \<and> compare s = lt \<and>
           map (\<lambda>a. key (nodes s ! a)) (L 0) = sorted_keys lt ks"
proof -
  have c: "compare (SkipList_new lt g k0) = lt" by (simp add: SkipList_new_def)
  have swo: "strict_weak_order (compare (SkipList_new lt g k0))" using assms c by simp
  from Insert_all_spec[OF inv_new swo, of ks] obtain s L where
    "Insert_all (SkipList_new lt g k0) ks = Some s" "sl_inv s L" "compare s = compare (SkipList_new lt g k0)"
    "map (\<lambda>a. key (nodes s ! a)) (L 0) =
       foldl (\<lambda>xs k. ins_key (compare (SkipList_new lt g k0)) k xs)
         (map (\<lambda>a. key (nodes (SkipList_new lt g k0) ! a)) []) ks"
    by blast
  then have "Insert_all (SkipList_new lt g k0) ks = Some s \<and> sl_inv s L \<and> compare s = lt \<and>
           map (\<lambda>a. key (nodes s ! a)) (L 0) = sorted_keys lt ks"
    unfolding c by (simp add: sorted_keys_def)
  then show ?thesis by blast
qed

lemma sorted_equiv_eq:
  assumes swo: "strict_weak_order lt" and so: "sorted_wrt lt ks"
    and "x \<in> set ks" "y \<in> set ks" "equiv lt x y"
  shows "x = y"
proof -
  from assms(3,4) obtain i j where ij: "i < length ks" "ks ! i = x" "j < length ks" "ks ! j = y"
    by (auto simp: in_set_conv_nth)
  have "\<not> i < j" using sorted_wrt_nth_less[OF so, of i j] ij assms(5) by (auto simp: equiv_def)
  moreover have "\<not> j < i" using sorted_wrt_nth_less[OF so, of j i] ij assms(5) by (auto simp: equiv_def)
  ultimately show ?thesis using ij by (simp add: not_less order_antisym)
qed

lemma swo_int: "strict_weak_order ((<) :: int \<Rightarrow> int \<Rightarrow> bool)"
  by (auto simp: strict_weak_order_def)

lemma sorted_pairwise_not_equiv:
  assumes so: "sorted_wrt lt ks" and "i < length ks" "j < length ks" "i \<noteq> j"
  shows "\<not> equiv lt (ks ! i) (ks ! j)"
proof (cases "i < j")
  case True
  from sorted_wrt_nth_less[OF so True assms(3)] show ?thesis by (simp add: equiv_def)
next
  case False
  with assms(4) have "j < i" by simp
  from sorted_wrt_nth_less[OF so this assms(2)] show ?thesis by (simp add: equiv_def)
qed

lemma reach_keys:
  assumes swo: "strict_weak_order lt" and s: "Insert_all (SkipList_new lt g k0) ks = Some s"
  shows "\<exists>L. sl_inv s L \<and> compare s = lt \<and> map (\<lambda>a. key (nodes s ! a)) (L 0) = sorted_keys lt ks \<and>
             keys_of s = Some (sorted_keys lt ks)"
proof -
  from reach[OF swo, of g k0 ks] s obtain L where
    L: "sl_inv s L" "compare s = lt" "map (\<lambda>a. key (nodes s ! a)) (L 0) = sorted_keys lt ks"
    by auto
  have "keys_of s = Some (sorted_keys lt ks)" using keys_of_spec[OF L(1)] L(3) by (simp only:)
  with L show ?thesis by blast
qed

lemma Insert_all_total:
  assumes swo: "strict_weak_order lt"
  shows "Insert_all (SkipList_new lt g k0) ks = Some (the (Insert_all (SkipList_new lt g k0) ks))"
  using reach[OF swo, of g k0 ks] by auto

subsection \<open>The claims about the skip list\<close>

text \<open>
  Claim C1.  For every sequence \<open>ks\<close> of keys given to \<open>Insert\<close>, in any order and
  with duplicates, on a new list whose comparator is a strict weak order, every call
  returns, and the traversal from \<open>Begin()\<close> to \<open>End()\<close> visits keys that are strictly
  increasing under the comparator, no two of them equivalent.  In particular, inserting
  5, 3, 8, 3, 1 into a list of integers gives the traversal 1, 3, 5, 8, whatever the
  random numbers drawn.
\<close>

theorem Insert_traversal_strictly_increasing:
  "(strict_weak_order lt \<longrightarrow>
      (\<exists>s keys. Insert_all (SkipList_new lt g k0) ks = Some s \<and> keys_of s = Some keys \<and>
          sorted_wrt lt keys \<and>
          (\<forall>i<length keys. \<forall>j<length keys. i \<noteq> j \<longrightarrow> \<not> equiv lt (keys ! i) (keys ! j)))) \<and>
   (\<exists>s. Insert_all (SkipList_new (<) g' (k0'::int)) [5, 3, 8, 3, 1] = Some s \<and>
        keys_of s = Some [1, 3, 5, 8])"
proof (intro conjI impI)
  assume swo: "strict_weak_order lt"
  let ?s = "the (Insert_all (SkipList_new lt g k0) ks)"
  note s = Insert_all_total[OF swo, of g k0 ks]
  from reach_keys[OF swo s] have k: "keys_of ?s = Some (sorted_keys lt ks)" by blast
  have so: "sorted_wrt lt (sorted_keys lt ks)" by (rule sorted_keys_sorted[OF swo])
  have ne: "\<forall>i<length (sorted_keys lt ks). \<forall>j<length (sorted_keys lt ks).
      i \<noteq> j \<longrightarrow> \<not> equiv lt (sorted_keys lt ks ! i) (sorted_keys lt ks ! j)"
    by (intro allI impI sorted_pairwise_not_equiv[OF so])
  from s k so ne
  show "\<exists>s keys. Insert_all (SkipList_new lt g k0) ks = Some s \<and> keys_of s = Some keys \<and>
          sorted_wrt lt keys \<and>
          (\<forall>i<length keys. \<forall>j<length keys. i \<noteq> j \<longrightarrow> \<not> equiv lt (keys ! i) (keys ! j))"
    by (intro exI conjI)
next
  let ?s = "the (Insert_all (SkipList_new (<) g' k0') [5, 3, 8, 3, 1])"
  note s = Insert_all_total[OF swo_int, of g' k0' "[5, 3, 8, 3, 1]"]
  from reach_keys[OF swo_int s] have k: "keys_of ?s = Some (sorted_keys (<) [5, 3, 8, 3, 1])"
    by blast
  have "sorted_keys (<) [5, 3, 8, 3, 1::int] = [1, 3, 5, 8]"
    by code_simp
  with k have "keys_of ?s = Some [1, 3, 5, 8]" by (simp only:)
  with s show "\<exists>s. Insert_all (SkipList_new (<) g' k0') [5, 3, 8, 3, 1] = Some s \<and>
        keys_of s = Some [1, 3, 5, 8]"
    by (intro exI conjI)
qed

text \<open>The theorem of C1 at the integers with \<open><\<close>.\<close>

theorem Insert_traversal_strictly_increasing_witness:
  "strict_weak_order ((<) :: int \<Rightarrow> int \<Rightarrow> bool) \<and>
   (\<exists>s keys. Insert_all (SkipList_new (<) (\<lambda>i. i mod 4) (0::int)) [5, 3, 8, 3, 1] = Some s \<and>
      keys_of s = Some keys \<and> sorted_wrt (<) keys)"
  using Insert_traversal_strictly_increasing[of "(<) :: int \<Rightarrow> int \<Rightarrow> bool" "\<lambda>i. i mod 4" 0 "[5, 3, 8, 3, 1]"]
    swo_int by blast

text \<open>
  Claim C5.  When the list, built by any sequence of calls of \<open>Insert\<close>, holds a key
  \<open>x\<close> equivalent to \<open>k\<close>, \<open>Insert(k)\<close> returns an iterator to the node that holds
  \<open>x\<close>, a node of the list (the traversal from it is the rest of the list from \<open>x\<close> on),
  and the list after the call is the list before it: no node is made or linked, and no
  random number is drawn.
\<close>

theorem Insert_existing_key_unchanged:
  assumes swo: "strict_weak_order lt"
    and s: "Insert_all (SkipList_new lt g k0) ks = Some s"
    and keys: "keys_of s = Some keys" and x: "x \<in> set keys" "equiv lt x k"
  shows "\<exists>n. Insert s k = Some (Some n, s) \<and> n \<noteq> head \<and> key_of s n = Some x \<and>
             traverse s (Some n) = Some (dropWhile (\<lambda>y. lt y k) keys)"
proof -
  from reach_keys[OF swo s] keys obtain L where
    L: "sl_inv s L" "compare s = lt" "map (\<lambda>a. key (nodes s ! a)) (L 0) = keys"
    by auto
  have swo': "strict_weak_order (compare s)" using swo L(2) by simp
  have ex: "\<exists>x\<in>set (map (\<lambda>a. key (nodes s ! a)) (L 0)). equiv (compare s) x k"
    unfolding L(2,3) using x by blast
  from Insert_found[OF L(1) swo' ex] obtain a where
    a: "succ_at s (\<lambda>nk. compare s nk k) (L 0) = Some a" "a \<in> set (L 0)"
    "equiv (compare s) (key (nodes s ! a)) k" "Insert s k = Some (Some a, s)"
    by blast
  from L(1) have sh: "sl_shape (nodes s) L" and so: "sorted_wrt (compare s) (map (\<lambda>a. key (nodes s ! a)) (L 0))"
    by (simp_all add: sl_inv_def MaxLevel_def)
  have "0 \<notin> set (L 0)" using sh unfolding sl_shape_def MaxLevel_def by simp
  then have a0: "a \<noteq> head" using a(2) unfolding head_def by metis
  have al: "a < length (nodes s)" using shape_bound[OF sh _ a(2)] by (simp add: MaxLevel_def)
  have "key (nodes s ! a) \<in> set keys" using a(2) L(3) by auto
  moreover have "equiv lt (key (nodes s ! a)) x"
    using swo_equiv_trans[OF swo, of "key (nodes s ! a)" k x] a(3) x(2) L(2) equiv_sym[of lt x k]
    by simp
  ultimately have kx: "key (nodes s ! a) = x"
    using sorted_equiv_eq[OF swo _ _ x(1), of "key (nodes s ! a)"] so L(2,3) by simp
  have dm: "dropWhile (\<lambda>y. lt y k) keys =
      map (\<lambda>a. key (nodes s ! a)) (dropWhile (\<lambda>a. lt (key (nodes s ! a)) k) (L 0))"
    unfolding L(3)[symmetric] by (simp add: dropWhile_map o_def)
  have tr: "traverse s (Some a) = Some (dropWhile (\<lambda>y. lt y k) keys)"
    using traverse_succ_at[OF L(1), of "\<lambda>nk. compare s nk k"] a(1) L(2)
    unfolding dm by simp
  from a(4) a0 al kx tr show ?thesis by (auto simp: key_of_def)
qed

text \<open>The theorem of C5 for the list built from 5, 3, 8 and the key 3.\<close>

theorem Insert_existing_key_unchanged_witness:
  "strict_weak_order ((<) :: int \<Rightarrow> int \<Rightarrow> bool) \<and>
   (\<exists>s n. Insert_all (SkipList_new (<) (\<lambda>i. i mod 4) (0::int)) [5, 3, 8] = Some s \<and>
      keys_of s = Some [3, 5, 8] \<and> Insert s 3 = Some (Some n, s) \<and> key_of s n = Some 3 \<and>
      traverse s (Some n) = Some [3, 5, 8])"
proof -
  define s where "s = the (Insert_all (SkipList_new (<) (\<lambda>i. i mod 4) (0::int)) [5, 3, 8])"
  have s: "Insert_all (SkipList_new (<) (\<lambda>i. i mod 4) (0::int)) [5, 3, 8] = Some s"
    unfolding s_def by (rule Insert_all_total[OF swo_int])
  have sk: "sorted_keys (<) [5, 3, 8::int] = [3, 5, 8]" by code_simp
  from reach_keys[OF swo_int s] have k: "keys_of s = Some [3, 5, 8]" unfolding sk by blast
  have x: "(3::int) \<in> set [3, 5, 8]" "equiv (<) (3::int) 3" by (simp_all add: equiv_def)
  from Insert_existing_key_unchanged[OF swo_int s k x] obtain n where
    "Insert s 3 = Some (Some n, s)" "key_of s n = Some 3" "traverse s (Some n) = Some [3, 5, 8]"
    by auto
  with s k swo_int show ?thesis by blast
qed

text \<open>
  Claim C6.  After any sequence \<open>ks\<close> of insertions, \<open>Find(k)\<close> returns \<open>End()\<close> if and
  only if no key equivalent to \<open>k\<close> is among \<open>ks\<close>; otherwise it returns an iterator to a
  node of the list that holds an inserted key equivalent to \<open>k\<close>.
\<close>

theorem Find_end_iff_never_inserted:
  assumes swo: "strict_weak_order lt"
    and s: "Insert_all (SkipList_new lt g k0) ks = Some s"
  shows "\<exists>it. Find s k = Some it \<and> (it = End \<longleftrightarrow> \<not> (\<exists>x\<in>set ks. equiv lt x k)) \<and>
           (\<forall>n. it = Some n \<longrightarrow>
              n \<noteq> head \<and> (\<exists>x\<in>set ks. key_of s n = Some x \<and> equiv lt x k) \<and>
              traverse s it = Some (dropWhile (\<lambda>y. lt y k) (sorted_keys lt ks)))"
proof -
  from reach_keys[OF swo s] obtain L where
    L: "sl_inv s L" "compare s = lt" "map (\<lambda>a. key (nodes s ! a)) (L 0) = sorted_keys lt ks"
    by auto
  have swo': "strict_weak_order (compare s)" using swo L(2) by simp
  let ?succ = "succ_at s (\<lambda>nk. lt nk k) (L 0)"
  let ?it = "case ?succ of None \<Rightarrow> None | Some a \<Rightarrow> if lt k (key (nodes s ! a)) then None else Some a"
  have f: "Find s k = Some ?it" using Find_spec[OF L(1) swo', of k] unfolding L(2) .
  have e: "(\<exists>x\<in>set ks. equiv lt x k) \<longleftrightarrow>
           (case ?succ of None \<Rightarrow> False | Some a \<Rightarrow> \<not> lt k (key (nodes s ! a)))"
    using succ_at_equiv[OF L(1) swo', of k] sorted_keys_cover[OF swo, of ks k] unfolding L(2,3)
    by simp
  have iff: "?it = End \<longleftrightarrow> \<not> (\<exists>x\<in>set ks. equiv lt x k)"
    unfolding e End_def by (simp split: option.splits)
  from L(1) have sh: "sl_shape (nodes s) L" by (simp add: sl_inv_def)
  have "0 \<notin> set (L 0)" using sh unfolding sl_shape_def MaxLevel_def by simp
  have dm: "dropWhile (\<lambda>y. lt y k) (sorted_keys lt ks) =
      map (\<lambda>a. key (nodes s ! a)) (dropWhile (\<lambda>a. lt (key (nodes s ! a)) k) (L 0))"
    unfolding L(3)[symmetric] by (simp add: dropWhile_map o_def)
  have node: "n \<noteq> head \<and> (\<exists>x\<in>set ks. key_of s n = Some x \<and> equiv lt x k) \<and>
              traverse s ?it = Some (dropWhile (\<lambda>y. lt y k) (sorted_keys lt ks))"
    if n: "?it = Some n" for n
  proof -
    from n have sc: "?succ = Some n" and nk: "\<not> lt k (key (nodes s ! n))"
      by (auto split: option.splits if_splits)
    have nin: "n \<in> set (L 0)" using sc by (rule succ_at_in)
    have n0: "n \<noteq> head" using nin \<open>0 \<notin> set (L 0)\<close> unfolding head_def by metis
    have nl: "n < length (nodes s)" using shape_bound[OF sh _ nin] by (simp add: MaxLevel_def)
    have "key (nodes s ! n) \<in> set (sorted_keys lt ks)" using nin unfolding L(3)[symmetric] by simp
    then have inks: "key (nodes s ! n) \<in> set ks" using sorted_keys_subset by fast
    have "\<not> lt (key (nodes s ! n)) k" using succ_at_not_less[OF sc] .
    with nk have eq: "equiv lt (key (nodes s ! n)) k" by (simp add: equiv_def)
    have tr: "traverse s (Some n) = Some (dropWhile (\<lambda>y. lt y k) (sorted_keys lt ks))"
      using traverse_succ_at[OF L(1), of "\<lambda>nk. lt nk k"] sc unfolding dm by simp
    show ?thesis using n0 nl inks eq tr n by (auto simp: key_of_def)
  qed
  from f iff node show ?thesis by blast
qed

text \<open>The theorem of C6 for the list built from 5, 3, 8, 3, 1: 9 is not found, 3 is.\<close>

theorem Find_end_iff_never_inserted_witness:
  "strict_weak_order ((<) :: int \<Rightarrow> int \<Rightarrow> bool) \<and>
   (\<exists>s. Insert_all (SkipList_new (<) (\<lambda>i. i mod 4) (0::int)) [5, 3, 8, 3, 1] = Some s \<and>
      Find s 9 = Some End \<and> (\<exists>n. Find s 3 = Some (Some n) \<and> key_of s n = Some 3))"
proof -
  define s where "s = the (Insert_all (SkipList_new (<) (\<lambda>i. i mod 4) (0::int)) [5, 3, 8, 3, 1])"
  have s: "Insert_all (SkipList_new (<) (\<lambda>i. i mod 4) (0::int)) [5, 3, 8, 3, 1] = Some s"
    unfolding s_def by (rule Insert_all_total[OF swo_int])
  have n9: "\<not> (\<exists>x\<in>set [5, 3, 8, 3, 1::int]. equiv (<) x 9)" by (simp add: equiv_def)
  have e3: "\<exists>x\<in>set [5, 3, 8, 3, 1::int]. equiv (<) x 3" by (simp add: equiv_def)
  from Find_end_iff_never_inserted[OF swo_int s, of 9] n9 have f9: "Find s 9 = Some End" by auto
  from Find_end_iff_never_inserted[OF swo_int s, of 3] e3 obtain n x where
    "Find s 3 = Some (Some n)" "key_of s n = Some x" "equiv (<) x 3"
    unfolding End_def by fastforce
  then have "Find s 3 = Some (Some n) \<and> key_of s n = Some 3" by (simp add: equiv_def)
  with s f9 swo_int show ?thesis by blast
qed

text \<open>
  Claim C7.  After any sequence \<open>ks\<close> of insertions the traversal of the list is the
  sorted sequence \<open>sorted_keys lt ks\<close> of the inserted keys.  For every probe \<open>k\<close>,
  \<open>LowerBound(k)\<close> returns the iterator at its first element that is not less than \<open>k\<close>
  (the traversal from the iterator is the sequence without its longest prefix of keys
  less than \<open>k\<close>), \<open>UpperBound(k)\<close> the iterator at its first element greater than \<open>k\<close>,
  and each is \<open>End()\<close> exactly when there is no such element.
\<close>

theorem LowerBound_UpperBound_standard:
  assumes swo: "strict_weak_order lt"
    and s: "Insert_all (SkipList_new lt g k0) ks = Some s"
  shows "\<exists>lb ub. keys_of s = Some (sorted_keys lt ks) \<and>
           LowerBound s k = Some lb \<and> UpperBound s k = Some ub \<and>
           traverse s lb = Some (dropWhile (\<lambda>x. lt x k) (sorted_keys lt ks)) \<and>
           traverse s ub = Some (dropWhile (\<lambda>x. \<not> lt k x) (sorted_keys lt ks)) \<and>
           (lb = End \<longleftrightarrow> (\<forall>x\<in>set (sorted_keys lt ks). lt x k)) \<and>
           (ub = End \<longleftrightarrow> (\<forall>x\<in>set (sorted_keys lt ks). \<not> lt k x))"
proof -
  from reach_keys[OF swo s] obtain L where
    L: "sl_inv s L" "compare s = lt" "map (\<lambda>a. key (nodes s ! a)) (L 0) = sorted_keys lt ks"
    "keys_of s = Some (sorted_keys lt ks)"
    by auto
  have swo': "strict_weak_order (compare s)" using swo L(2) by simp
  let ?f = "\<lambda>a. key (nodes s ! a)"
  have dm: "dropWhile go (sorted_keys lt ks) = map ?f (dropWhile (\<lambda>a. go (?f a)) (L 0))" for go
    unfolding L(3)[symmetric] by (simp add: dropWhile_map o_def)
  have tr: "traverse s (succ_at s go (L 0)) = Some (dropWhile go (sorted_keys lt ks))" for go
    using traverse_succ_at[OF L(1), of go] unfolding dm .
  have en: "succ_at s go (L 0) = End \<longleftrightarrow> (\<forall>x\<in>set (sorted_keys lt ks). go x)" for go
  proof -
    have "(case D of [] \<Rightarrow> None | a # _ \<Rightarrow> Some a) = None \<longleftrightarrow> D = []" for D :: "nat list"
      by (cases D) simp_all
    then have "succ_at s go (L 0) = None \<longleftrightarrow> dropWhile (\<lambda>a. go (?f a)) (L 0) = []"
      unfolding succ_at_def .
    also have "\<dots> \<longleftrightarrow> (\<forall>a\<in>set (L 0). go (?f a))" by (simp add: dropWhile_eq_Nil_conv)
    also have "\<dots> \<longleftrightarrow> (\<forall>x\<in>set (map ?f (L 0)). go x)" by simp
    finally show ?thesis unfolding L(3) End_def .
  qed
  have lb: "LowerBound s k = Some (succ_at s (\<lambda>nk. lt nk k) (L 0))"
    using LowerBound_spec[OF L(1) swo', of k] unfolding L(2) .
  have ub: "UpperBound s k = Some (succ_at s (\<lambda>nk. \<not> lt k nk) (L 0))"
    using UpperBound_spec[OF L(1) swo', of k] unfolding L(2) .
  from L(4) lb ub tr[of "\<lambda>x. lt x k"] tr[of "\<lambda>x. \<not> lt k x"] en[of "\<lambda>x. lt x k"] en[of "\<lambda>x. \<not> lt k x"]
  show ?thesis by (intro exI conjI)
qed

text \<open>The theorem of C7 for the list built from 5, 3, 8, 3, 1 and the probes 3 and 9.\<close>

theorem LowerBound_UpperBound_standard_witness:
  "strict_weak_order ((<) :: int \<Rightarrow> int \<Rightarrow> bool) \<and>
   (\<exists>s lb ub. Insert_all (SkipList_new (<) (\<lambda>i. i mod 4) (0::int)) [5, 3, 8, 3, 1] = Some s \<and>
      keys_of s = Some [1, 3, 5, 8] \<and>
      LowerBound s 3 = Some lb \<and> traverse s lb = Some [3, 5, 8] \<and>
      UpperBound s 3 = Some ub \<and> traverse s ub = Some [5, 8] \<and>
      LowerBound s 9 = Some End \<and> UpperBound s 9 = Some End)"
proof -
  define s where "s = the (Insert_all (SkipList_new (<) (\<lambda>i. i mod 4) (0::int)) [5, 3, 8, 3, 1])"
  have s: "Insert_all (SkipList_new (<) (\<lambda>i. i mod 4) (0::int)) [5, 3, 8, 3, 1] = Some s"
    unfolding s_def by (rule Insert_all_total[OF swo_int])
  have sk: "sorted_keys (<) [5, 3, 8, 3, 1::int] = [1, 3, 5, 8]" by code_simp
  from LowerBound_UpperBound_standard[OF swo_int s, of 3] obtain lb ub where
    a: "keys_of s = Some [1, 3, 5, 8]" "LowerBound s 3 = Some lb" "traverse s lb = Some [3, 5, 8]"
    "UpperBound s 3 = Some ub" "traverse s ub = Some [5, 8]"
    unfolding sk by auto
  from LowerBound_UpperBound_standard[OF swo_int s, of 9]
  have b: "LowerBound s 9 = Some End" "UpperBound s 9 = Some End"
    unfolding sk by auto
  from s a b swo_int show ?thesis by blast
qed

section \<open>Properties of the memtable\<close>

lemma Add_step:
  assumes inv: "sl_inv (table m) L" and swo: "strict_weak_order (compare (table m))"
  shows "\<exists>m' L'. Add ikey m sq ty k v = Some m' \<and>
           arena m' = arena m @ [entry_of ikey sq ty k v] \<and>
           sl_inv (table m') L' \<and> compare (table m') = compare (table m) \<and>
           map (\<lambda>a. key (nodes (table m') ! a)) (L' 0) =
             ins_key (compare (table m)) (entry_of ikey sq ty k v)
               (map (\<lambda>a. key (nodes (table m) ! a)) (L 0))"
proof -
  let ?e = "entry_of ikey sq ty k v"
  from Insert_step[OF inv swo, of ?e] obtain it t L' where
    t: "Insert (table m) ?e = Some (it, t)" "sl_inv t L'" "compare t = compare (table m)"
    "map (\<lambda>a. key (nodes t ! a)) (L' 0) =
       ins_key (compare (table m)) ?e (map (\<lambda>a. key (nodes (table m) ! a)) (L 0))"
    by blast
  have a: "(arena m @ [replicate (length ?e) 0])[length (arena m) := ?e] = arena m @ [?e]"
    by simp
  have "Add ikey m sq ty k v = Some (m\<lparr>arena := arena m @ [?e], table := t\<rparr>)"
    using t(1) by (simp add: Add_def allocate_def a)
  with t(2,3,4) show ?thesis by auto
qed

lemma Add_all_spec:
  assumes "sl_inv (table m) L" and "strict_weak_order (compare (table m))"
  shows "\<exists>m' L'. Add_all ikey m ops = Some m' \<and> sl_inv (table m') L' \<and>
           compare (table m') = compare (table m) \<and>
           arena m' = arena m @ map (\<lambda>(sq, ty, k, v). entry_of ikey sq ty k v) ops \<and>
           map (\<lambda>a. key (nodes (table m') ! a)) (L' 0) =
             foldl (\<lambda>xs (sq, ty, k, v). ins_key (compare (table m)) (entry_of ikey sq ty k v) xs)
               (map (\<lambda>a. key (nodes (table m) ! a)) (L 0)) ops"
  using assms
proof (induction ops arbitrary: m L)
  case Nil
  then show ?case by auto
next
  case (Cons op ops)
  obtain sq ty k v where op: "op = (sq, ty, k, v)" by (cases op)
  from Add_step[OF Cons.prems, of ikey sq ty k v] obtain m1 L1 where
    m1: "Add ikey m sq ty k v = Some m1" "arena m1 = arena m @ [entry_of ikey sq ty k v]"
    "sl_inv (table m1) L1" "compare (table m1) = compare (table m)"
    "map (\<lambda>a. key (nodes (table m1) ! a)) (L1 0) =
       ins_key (compare (table m)) (entry_of ikey sq ty k v)
         (map (\<lambda>a. key (nodes (table m) ! a)) (L 0))"
    by blast
  have swo1: "strict_weak_order (compare (table m1))" using Cons.prems(2) m1(4) by simp
  from Cons.IH[OF m1(3) swo1] obtain m' L' where
    m': "Add_all ikey m1 ops = Some m'" "sl_inv (table m') L'"
    "compare (table m') = compare (table m1)"
    "arena m' = arena m1 @ map (\<lambda>(sq, ty, k, v). entry_of ikey sq ty k v) ops"
    "map (\<lambda>a. key (nodes (table m') ! a)) (L' 0) =
       foldl (\<lambda>xs (sq, ty, k, v). ins_key (compare (table m1)) (entry_of ikey sq ty k v) xs)
         (map (\<lambda>a. key (nodes (table m1) ! a)) (L1 0)) ops"
    by blast
  have "Add_all ikey m (op # ops) = Some m'" using m1(1) m'(1) op by simp
  moreover have "compare (table m') = compare (table m)" using m'(3) m1(4) by simp
  moreover have "arena m' = arena m @ map (\<lambda>(sq, ty, k, v). entry_of ikey sq ty k v) (op # ops)"
    using m'(4) m1(2) op by simp
  moreover have "map (\<lambda>a. key (nodes (table m') ! a)) (L' 0) =
       foldl (\<lambda>xs (sq, ty, k, v). ins_key (compare (table m)) (entry_of ikey sq ty k v) xs)
         (map (\<lambda>a. key (nodes (table m) ! a)) (L 0)) (op # ops)"
    using m'(5) m1(4,5) op by simp
  ultimately show ?case using m'(2) by blast
qed

lemma MemTable_reach:
  assumes swo: "strict_weak_order lt"
  shows "\<exists>m L. Add_all ikey (MemTable_new lt g) ops = Some m \<and> sl_inv (table m) L \<and>
           compare (table m) = lt \<and>
           arena m = map (\<lambda>(sq, ty, k, v). entry_of ikey sq ty k v) ops \<and>
           map (\<lambda>a. key (nodes (table m) ! a)) (L 0) =
             sorted_keys lt (map (\<lambda>(sq, ty, k, v). entry_of ikey sq ty k v) ops)"
proof -
  let ?m0 = "MemTable_new lt g"
  have c: "compare (table ?m0) = lt" "arena ?m0 = []"
    by (simp_all add: MemTable_new_def SkipList_new_def)
  have inv0: "sl_inv (table ?m0) (\<lambda>l. [])" unfolding MemTable_new_def by (simp add: inv_new)
  have swo0: "strict_weak_order (compare (table ?m0))" using swo c by simp
  have f: "foldl (\<lambda>xs (sq, ty, k, v). ins_key lt (entry_of ikey sq ty k v) xs) acc ops =
           foldl (\<lambda>xs e. ins_key lt e xs) acc (map (\<lambda>(sq, ty, k, v). entry_of ikey sq ty k v) ops)" for acc
    by (induction ops arbitrary: acc) (auto simp: case_prod_beta)
  from Add_all_spec[OF inv0 swo0, of ikey ops] obtain m L where
    m: "Add_all ikey ?m0 ops = Some m" "sl_inv (table m) L" "compare (table m) = compare (table ?m0)"
    "arena m = arena ?m0 @ map (\<lambda>(sq, ty, k, v). entry_of ikey sq ty k v) ops"
    "map (\<lambda>a. key (nodes (table m) ! a)) (L 0) =
       foldl (\<lambda>xs (sq, ty, k, v). ins_key (compare (table ?m0)) (entry_of ikey sq ty k v) xs)
         (map (\<lambda>a. key (nodes (table ?m0) ! a)) []) ops"
    by blast
  have "map (\<lambda>a. key (nodes (table m) ! a)) (L 0) =
             sorted_keys lt (map (\<lambda>(sq, ty, k, v). entry_of ikey sq ty k v) ops)"
    using m(5) unfolding c f sorted_keys_def by simp
  with m(1,2,3,4) c show ?thesis by auto
qed

lemma swo_asym: "strict_weak_order lt \<Longrightarrow> lt a b \<Longrightarrow> \<not> lt b a"
  unfolding strict_weak_order_def by blast

lemma swo_measure: "strict_weak_order (\<lambda>x y. (f y :: nat) < f x)"
  by (auto simp: strict_weak_order_def)

text \<open>
  Claim C8, amended.  On a memtable built by any sequence of calls of \<open>Add\<close>, under a
  comparator of entries that is a strict weak order, \<open>Add(sequence, kind, key, value)\<close>
  returns; it allocates one new arena buffer that holds the length-prefixed internal key
  followed by the length-prefixed value, and passes that entry to \<open>Insert\<close> of the
  ordered list.  The traversal afterwards is \<open>ins_key\<close> of the entry and the traversal
  before: when the list holds an entry that the comparator takes for equal to the new
  one, it is the traversal before, and the new buffer is in no node; otherwise it is the
  traversal before with the entry at its place in the order.  In particular, after
  add(5, Value, a, x) and add(6, Value, a, y), with a comparator that puts the entry of
  sequence 6 before the entry of sequence 5, the traversal yields the entry of sequence 6
  first.
\<close>

theorem Add_stores_length_prefixed_entry:
  assumes swo: "strict_weak_order lt"
  shows "(\<exists>m. Add_all ikey (MemTable_new lt g) ops = Some m) \<and>
    (\<forall>m. Add_all ikey (MemTable_new lt g) ops = Some m \<longrightarrow>
       (\<exists>m' keys. Add ikey m sq ty k v = Some m' \<and>
          arena m' = arena m @ [PutVar32 (length (ikey k sq ty)) @ ikey k sq ty @ PutVar32 (length v) @ v] \<and>
          keys_of (table m) = Some keys \<and>
          keys_of (table m') =
            Some (ins_key lt (PutVar32 (length (ikey k sq ty)) @ ikey k sq ty @ PutVar32 (length v) @ v) keys))) \<and>
    (lt (entry_of ikey 6 TypeValue [0x61] [0x79]) (entry_of ikey 5 TypeValue [0x61] [0x78]) \<longrightarrow>
       (\<exists>m. Add_all ikey (MemTable_new lt g)
               [(5, TypeValue, [0x61], [0x78]), (6, TypeValue, [0x61], [0x79])] = Some m \<and>
            keys_of (table m) =
              Some [entry_of ikey 6 TypeValue [0x61] [0x79], entry_of ikey 5 TypeValue [0x61] [0x78]]))"
proof (intro conjI allI impI)
  from MemTable_reach[OF swo, of ikey g ops]
  show "\<exists>m. Add_all ikey (MemTable_new lt g) ops = Some m" by blast
next
  fix m assume m: "Add_all ikey (MemTable_new lt g) ops = Some m"
  let ?e = "PutVar32 (length (ikey k sq ty)) @ ikey k sq ty @ PutVar32 (length v) @ v"
  have e: "entry_of ikey sq ty k v = ?e" by (simp add: entry_of_def AppendVarString_def)
  from MemTable_reach[OF swo, of ikey g ops] m obtain L where
    L: "sl_inv (table m) L" "compare (table m) = lt" by auto
  have swo': "strict_weak_order (compare (table m))" using swo L(2) by simp
  from Add_step[OF L(1) swo', of ikey sq ty k v] obtain m' L' where
    m': "Add ikey m sq ty k v = Some m'" "arena m' = arena m @ [?e]" "sl_inv (table m') L'"
    "map (\<lambda>a. key (nodes (table m') ! a)) (L' 0) =
       ins_key lt ?e (map (\<lambda>a. key (nodes (table m) ! a)) (L 0))"
    unfolding e L(2) by blast
  have "keys_of (table m') = Some (ins_key lt ?e (map (\<lambda>a. key (nodes (table m) ! a)) (L 0)))"
    using keys_of_spec[OF m'(3)] m'(4) by (simp only:)
  with m'(1,2) keys_of_spec[OF L(1)]
  show "\<exists>m' keys. Add ikey m sq ty k v = Some m' \<and> arena m' = arena m @ [?e] \<and>
          keys_of (table m) = Some keys \<and> keys_of (table m') = Some (ins_key lt ?e keys)"
    by (intro exI conjI)
next
  let ?e5 = "entry_of ikey 5 TypeValue [0x61] [0x78]"
  let ?e6 = "entry_of ikey 6 TypeValue [0x61] [0x79]"
  let ?ops = "[(5, TypeValue, [0x61], [0x78]), (6, TypeValue, [0x61], [0x79])] :: (nat \<times> ValueType \<times> byte list \<times> byte list) list"
  assume lt: "lt ?e6 ?e5"
  have nlt: "\<not> lt ?e5 ?e6" using swo_asym[OF swo lt] .
  from MemTable_reach[OF swo, of ikey g ?ops] obtain m L where
    m: "Add_all ikey (MemTable_new lt g) ?ops = Some m" "sl_inv (table m) L"
    "map (\<lambda>a. key (nodes (table m) ! a)) (L 0) =
       sorted_keys lt (map (\<lambda>(sq, ty, k, v). entry_of ikey sq ty k v) ?ops)"
    by blast
  have "sorted_keys lt (map (\<lambda>(sq, ty, k, v). entry_of ikey sq ty k v) ?ops) = [?e6, ?e5]"
    using lt nlt by (simp add: sorted_keys_def ins_key_def equiv_def)
  with m(3) keys_of_spec[OF m(2)] have "keys_of (table m) = Some [?e6, ?e5]" by (simp only:)
  with m(1) show "\<exists>m. Add_all ikey (MemTable_new lt g) ?ops = Some m \<and>
      keys_of (table m) = Some [?e6, ?e5]"
    by (intro exI conjI)
qed

text \<open>The theorem of C8 with the internal key and the comparator of the example.\<close>

theorem Add_stores_length_prefixed_entry_witness:
  "strict_weak_order lt_example \<and>
   entry_of ikey_example 5 TypeValue [0x61] [0x78] = [3, 0x61, 5, 1, 1, 0x78] \<and>
   entry_of ikey_example 6 TypeValue [0x61] [0x79] = [3, 0x61, 6, 1, 1, 0x79] \<and>
   (\<exists>m. Add_all ikey_example (MemTable_new lt_example (\<lambda>i. i mod 4))
           [(5, TypeValue, [0x61], [0x78]), (6, TypeValue, [0x61], [0x79])] = Some m \<and>
        keys_of (table m) = Some [[3, 0x61, 6, 1, 1, 0x79], [3, 0x61, 5, 1, 1, 0x78]])"
proof -
  have swo: "strict_weak_order lt_example"
    unfolding lt_example_def by (rule swo_measure)
  have e5: "entry_of ikey_example 5 TypeValue [0x61] [0x78] = [3, 0x61, 5, 1, 1, 0x78]"
    by (simp add: entry_of_def AppendVarString_def ikey_example_def PutVar32.simps)
  have e6: "entry_of ikey_example 6 TypeValue [0x61] [0x79] = [3, 0x61, 6, 1, 1, 0x79]"
    by (simp add: entry_of_def AppendVarString_def ikey_example_def PutVar32.simps)
  have lt: "lt_example (entry_of ikey_example 6 TypeValue [0x61] [0x79])
                       (entry_of ikey_example 5 TypeValue [0x61] [0x78])"
    unfolding e5 e6 by (simp add: lt_example_def)
  from Add_stores_length_prefixed_entry[OF swo, of ikey_example "\<lambda>i. i mod 4"] lt
  have "\<exists>m. Add_all ikey_example (MemTable_new lt_example (\<lambda>i. i mod 4))
           [(5, TypeValue, [0x61], [0x78]), (6, TypeValue, [0x61], [0x79])] = Some m \<and>
        keys_of (table m) = Some [entry_of ikey_example 6 TypeValue [0x61] [0x79],
                                 entry_of ikey_example 5 TypeValue [0x61] [0x78]]"
    by blast
  then show ?thesis unfolding e5 e6 using swo by blast
qed

text \<open>
  Claim C8 as the spec has it, refuted at add(5, Value, a, x) followed by
  add(5, Value, a, zz): the two entries have the same internal key, so the comparator
  takes them for equal.  The second call allocates its buffer, and the list holds the
  first entry only: the entry of the second call is not inserted.
\<close>

theorem Add_equal_entry_is_not_linked:
  "map_option arena
     (Add_all ikey_example (MemTable_new lt_example gen_example)
        [(5, TypeValue, [0x61], [0x78]), (5, TypeValue, [0x61], [0x7a, 0x7a])]) =
     Some [[3, 0x61, 5, 1, 1, 0x78], [3, 0x61, 5, 1, 2, 0x7a, 0x7a]] \<and>
   Option.bind
     (Add_all ikey_example (MemTable_new lt_example gen_example)
        [(5, TypeValue, [0x61], [0x78]), (5, TypeValue, [0x61], [0x7a, 0x7a])])
     table_entries =
     Some [[3, 0x61, 5, 1, 1, 0x78]]"
proof -
  let ?ops = "[(5, TypeValue, [0x61], [0x78]), (5, TypeValue, [0x61], [0x7a, 0x7a])]
      :: (nat \<times> ValueType \<times> byte list \<times> byte list) list"
  have swo: "strict_weak_order lt_example"
    unfolding lt_example_def by (rule swo_measure)
  have e1: "entry_of ikey_example 5 TypeValue [0x61] [0x78] = [3, 0x61, 5, 1, 1, 0x78]"
    by (simp add: entry_of_def AppendVarString_def ikey_example_def PutVar32.simps)
  have e2: "entry_of ikey_example 5 TypeValue [0x61] [0x7a, 0x7a] = [3, 0x61, 5, 1, 2, 0x7a, 0x7a]"
    by (simp add: entry_of_def AppendVarString_def ikey_example_def PutVar32.simps)
  from MemTable_reach[OF swo, of ikey_example gen_example ?ops] obtain m L where
    m: "Add_all ikey_example (MemTable_new lt_example gen_example) ?ops = Some m"
    "sl_inv (table m) L"
    "arena m = map (\<lambda>(sq, ty, k, v). entry_of ikey_example sq ty k v) ?ops"
    "map (\<lambda>a. key (nodes (table m) ! a)) (L 0) =
       sorted_keys lt_example (map (\<lambda>(sq, ty, k, v). entry_of ikey_example sq ty k v) ?ops)"
    by blast
  have a: "arena m = [[3, 0x61, 5, 1, 1, 0x78], [3, 0x61, 5, 1, 2, 0x7a, 0x7a]]"
    using m(3) by (simp add: e1 e2)
  have "sorted_keys lt_example (map (\<lambda>(sq, ty, k, v). entry_of ikey_example sq ty k v) ?ops) =
      [[3, 0x61, 5, 1, 1, 0x78]]"
    by (simp add: e1 e2 sorted_keys_def ins_key_def equiv_def lt_example_def)
  with m(4) keys_of_spec[OF m(2)] have "keys_of (table m) = Some [[3, 0x61, 5, 1, 1, 0x78]]"
    by (simp only:)
  then have t: "table_entries m = Some [[3, 0x61, 5, 1, 1, 0x78]]" by (simp add: table_entries_def)
  show ?thesis unfolding m(1) using a t by simp
qed
section \<open>Properties of the block decoder\<close>

lemma bindR_simps [simp]:
  "bindR None f = None" "bindR (Some (Inl e)) f = Some (Inl e)" "bindR (Some (Inr x)) f = f x"
  by (simp_all add: bindR_def)

lemma bindE_simps [simp]:
  "bindE (Inl e) f = Inl e" "bindE (Inr x) f = f x"
  by (simp_all add: bindE_def)

lemmas block_eval =
  Block_new_def ReadNum32_def GetVar32_def Skip_def bytes_at_def
  init_def catch_def BlockConstIterator_new_def Block_begin_def Block_end_def iter_equal_def
  increment_def Key_def restartPoint_def keyAtRestartPoint_def Block_lower_bound_def
  Block_find_def Key_replay.simps lower_bound_scan.simps lower_bound_search.simps
  int_of_uint32_def uint32_of_int_def int_overflows_def int_div2_def

lemma block3_new: "Block_new block3_bytes bytewise = Inr block3"
  by (simp add: block_eval block3_def block3_bytes_def)

lemma block6_new: "Block_new block6_bytes bytewise = Inr block6"
  by (simp add: block_eval block6_def block6_bytes_def)

lemma block_cut_new: "Block_new block_cut_bytes bytewise = Inr block_cut"
  by (simp add: block_eval block_cut_def block_cut_bytes_def)

lemma Block_end_fields:
  "data_end b \<le> data_end b \<Longrightarrow> Block_end b =
     Inr \<lparr>buf = data_end b, buf_len = 0, shared = 0, unshared = 0, value_len = 0, last_key = None,
          restart_pos = 0, key_str = [], stat = OK\<rparr>"
  by (simp add: Block_end_def BlockConstIterator_new_def init_def)

text \<open>
  Claim C10.  \<open>Block::find\<close> calls \<open>Key()\<close> on the cursor that \<open>lower_bound\<close>
  returns before it compares anything, and \<open>Key()\<close> asserts that its cursor is not the
  end cursor.  So for every target for which \<open>lower_bound\<close> returns the end cursor,
  \<open>find\<close> fails the assertion of \<open>Key()\<close> and does not return the end cursor.
\<close>

theorem find_asserts_on_end_cursor:
  assumes "Block_lower_bound b target = Some (Inr it)"
    and "Block_end b = Inr e" and "iter_equal it e"
  shows "Block_find b target = Some (Inl AssertionFailed) \<and>
         Key b it = Some (Inl AssertionFailed) \<and> Block_find b target \<noteq> Some (Block_end b)"
proof -
  from assms(2) have "buf e = data_end b" by (auto simp: Block_end_fields)
  with assms(3) have "buf it = data_end b" by (simp add: iter_equal_def)
  then have k: "Key b it = Some (Inl AssertionFailed)" by (simp add: Key_def)
  then show ?thesis using assms(1,2) by (simp add: Block_find_def)
qed

text \<open>
  The theorem of C10 on the block of the spec's example, for a target below the first
  restart key (\<open>a\<close>) and for a target above every key (\<open>z\<close>).
\<close>

theorem find_asserts_on_end_cursor_witness:
  "(\<exists>it e. Block_lower_bound block6 [0x61] = Some (Inr it) \<and> Block_end block6 = Inr e \<and>
       iter_equal it e \<and> Block_find block6 [0x61] = Some (Inl AssertionFailed)) \<and>
   (\<exists>it e. Block_lower_bound block6 [0x7a] = Some (Inr it) \<and> Block_end block6 = Inr e \<and>
       iter_equal it e \<and> Block_find block6 [0x7a] = Some (Inl AssertionFailed))"
proof -
  let ?e = "\<lparr>buf = 32, buf_len = 0, shared = 0, unshared = 0, value_len = 0,
      last_key = None, restart_pos = 0, key_str = [], stat = OK\<rparr>"
  let ?z = "\<lparr>buf = 32, buf_len = 0, shared = Suc 0, unshared = Suc 0, value_len = Suc 0,
      last_key = Some 30, restart_pos = 16, key_str = [], stat = OK\<rparr>"
  have e: "Block_end block6 = Inr ?e"
    by (simp add: Block_end_fields block6_def)
  have a: "Block_lower_bound block6 [0x61] = Some (Inr ?e)"
    by (simp add: block_eval block6_def block6_bytes_def)
  have z: "Block_lower_bound block6 [0x7a] = Some (Inr ?z)"
    by (simp add: block_eval block6_def block6_bytes_def)
  have ea: "iter_equal ?e ?e" and ez: "iter_equal ?z ?e" by (simp_all add: iter_equal_def)
  from find_asserts_on_end_cursor[OF a e ea] find_asserts_on_end_cursor[OF z e ez] a z e ea ez
  show ?thesis by blast
qed

text \<open>
  Claim C4, at an input where the code departs from it.  In the block \<open>aa\<close>, \<open>ab\<close>,
  \<open>ac\<close> the cursor on the second entry has the key \<open>ab\<close>; the third entry shares 1
  byte with it and stores \<open>c\<close>, so its full key is \<open>ac\<close>.  \<open>Key()\<close> on the cursor
  advanced to the third entry returns \<open>bc\<close>: \<open>last_key_\<close> points at the bytes that the
  second entry stores (\<open>b\<close>), not at its full key.  A cursor made on the third entry
  with no previous key replays from the restart point, drops what the replay found and
  reads the shared byte through the null \<open>last_key_\<close>.
\<close>

theorem Key_third_entry_takes_stored_bytes:
  "\<exists>it2 it3.
     bindE (Block_begin block3) (increment block3) = Inr it2 \<and>
     Key block3 it2 = Some (Inr ([0x61, 0x62], it2\<lparr>key_str := [0x61, 0x62]\<rparr>)) \<and>
     increment block3 it2 = Inr it3 \<and> buf it3 \<noteq> data_end block3 \<and>
     shared it3 = 1 \<and> bytes_at (data block3) (buf it3) (unshared it3) = Inr [0x63] \<and>
     Key block3 it3 = Some (Inr ([0x62, 0x63], it3\<lparr>key_str := [0x62, 0x63]\<rparr>)) \<and>
     (\<exists>it. BlockConstIterator_new block3 11 0 = Inr it \<and> buf it = buf it3 \<and>
           Key block3 it = Some (Inl OutOfBounds))"
proof -
  let ?it2 = "\<lparr>buf = 9, buf_len = 7, shared = Suc 0, unshared = Suc 0, value_len = Suc 0,
      last_key = Some 3, restart_pos = 0, key_str = [], stat = OK\<rparr>"
  let ?it3 = "\<lparr>buf = 14, buf_len = 2, shared = Suc 0, unshared = Suc 0, value_len = Suc 0,
      last_key = Some 9, restart_pos = 0, key_str = [], stat = OK\<rparr>"
  let ?it = "\<lparr>buf = 14, buf_len = 2, shared = Suc 0, unshared = Suc 0, value_len = Suc 0,
      last_key = None, restart_pos = 0, key_str = [], stat = OK\<rparr>"
  have 1: "bindE (Block_begin block3) (increment block3) = Inr ?it2"
    by (simp add: block_eval block3_def block3_bytes_def)
  have 2: "Key block3 ?it2 = Some (Inr ([0x61, 0x62], ?it2\<lparr>key_str := [0x61, 0x62]\<rparr>))"
    by (simp add: block_eval block3_def block3_bytes_def)
  have 3: "increment block3 ?it2 = Inr ?it3"
    by (simp add: block_eval block3_def block3_bytes_def)
  have 4: "buf ?it3 \<noteq> data_end block3" "shared ?it3 = 1"
    "bytes_at (data block3) (buf ?it3) (unshared ?it3) = Inr [0x63]"
    by (simp_all add: block_eval block3_def block3_bytes_def)
  have 5: "Key block3 ?it3 = Some (Inr ([0x62, 0x63], ?it3\<lparr>key_str := [0x62, 0x63]\<rparr>))"
    by (simp add: block_eval block3_def block3_bytes_def)
  have 6: "BlockConstIterator_new block3 11 0 = Inr ?it"
    by (simp add: block_eval block3_def block3_bytes_def)
  have 7: "Key block3 ?it = Some (Inl OutOfBounds)"
    by (simp add: block_eval block3_def block3_bytes_def)
  have 8: "buf ?it = buf ?it3" by simp
  from 1 2 3 4 5 6 7 8 show ?thesis by blast
qed

lemma GetVar32_error:
  "GetVar32 d s = Inl e \<Longrightarrow> RawData s + Len s \<le> length d \<Longrightarrow> e = DecodeException"
  by (auto simp: GetVar32_def split: option.splits if_splits)

text \<open>
  Claim C9.  When one of the three length fields at \<open>p\<close> is truncated or malformed
  (\<open>GetVar32\<close> throws), \<open>init\<close> returns normally: the cursor carries the status
  \<open>Corruption\<close>, and its position, previous key and restart position are as before.
  A status that \<open>init\<close> changes comes from nothing else.  So a cursor's advance onto
  such an entry returns a cursor with the status \<open>Corruption\<close>, on its old position.
\<close>

theorem init_decode_failure_is_status:
  "(p < data_end b \<and> lengths_at b p = Inl DecodeException \<longrightarrow>
      (\<exists>it'. init b it p = Inr it' \<and> stat it' = Corruption \<and> buf it' = buf it \<and>
             buf_len it' = buf_len it \<and> last_key it' = last_key it \<and>
             restart_pos it' = restart_pos it \<and> key_str it' = key_str it)) \<and>
   (\<forall>it'. init b it p = Inr it' \<and> stat it' \<noteq> stat it \<longrightarrow>
      p < data_end b \<and> lengths_at b p = Inl DecodeException) \<and>
   (unshared it + value_len it \<le> buf_len it \<and>
    buf it + unshared it + value_len it < data_end b \<and>
    lengths_at b (buf it + unshared it + value_len it) = Inl DecodeException \<longrightarrow>
      (\<exists>it'. increment b it = Inr it' \<and> stat it' = Corruption \<and> buf it' = buf it))"
proof (intro conjI impI allI)
  show "\<exists>it'. init b it p = Inr it' \<and> stat it' = Corruption \<and> buf it' = buf it \<and>
             buf_len it' = buf_len it \<and> last_key it' = last_key it \<and>
             restart_pos it' = restart_pos it \<and> key_str it' = key_str it"
    if "p < data_end b \<and> lengths_at b p = Inl DecodeException"
    using that
    by (auto simp: init_def lengths_at_def catch_def bindE_def split: sum.splits prod.splits)
  show "p < data_end b" if "init b it p = Inr it' \<and> stat it' \<noteq> stat it" for it'
    using that
    by (auto simp: init_def catch_def split: sum.splits prod.splits if_splits)
  show "lengths_at b p = Inl DecodeException" if "init b it p = Inr it' \<and> stat it' \<noteq> stat it" for it'
    using that
    by (auto simp: init_def lengths_at_def catch_def bindE_def split: sum.splits prod.splits if_splits)
  show "\<exists>it'. increment b it = Inr it' \<and> stat it' = Corruption \<and> buf it' = buf it"
    if "unshared it + value_len it \<le> buf_len it \<and>
        buf it + unshared it + value_len it < data_end b \<and>
        lengths_at b (buf it + unshared it + value_len it) = Inl DecodeException"
    using that
    by (auto simp: increment_def Skip_def init_def lengths_at_def catch_def bindE_def add.assoc
        split: sum.splits prod.splits)
qed

lemma decode_var32_None_iff:
  "decode_var32 i bs = None \<longleftrightarrow> (\<forall>x\<in>set (take (5 - i) bs). 128 \<le> unat x)"
proof (induction bs arbitrary: i)
  case Nil
  then show ?case by simp
next
  case (Cons b bs)
  show ?case
  proof (cases "5 \<le> i")
    case True
    then show ?thesis by simp
  next
    case False
    then have "5 - i = Suc (5 - Suc i)" by simp
    then show ?thesis using False Cons[of "Suc i"] by (auto simp: not_less)
  qed
qed

text \<open>The theorem of C9 on a block whose second entry is cut off in its first length field.\<close>

theorem init_decode_failure_is_status_witness:
  "\<exists>it. Block_begin block_cut = Inr it \<and> stat it = OK \<and>
     lengths_at block_cut 4 = Inl DecodeException \<and>
     (\<exists>it'. init block_cut it 4 = Inr it' \<and> stat it' = Corruption) \<and>
     (\<exists>it'. increment block_cut it = Inr it' \<and> stat it' = Corruption \<and> buf it' = buf it)"
proof -
  let ?it = "\<lparr>buf = 3, buf_len = 2, shared = 0, unshared = Suc 0, value_len = 0,
      last_key = None, restart_pos = 0, key_str = [], stat = OK\<rparr>"
  have b: "Block_begin block_cut = Inr ?it"
    by (simp add: block_eval block_cut_def block_cut_bytes_def)
  have l: "lengths_at block_cut 4 = Inl DecodeException"
    by (simp add: lengths_at_def GetVar32_def block_cut_def block_cut_bytes_def)
  have h1: "4 < data_end block_cut \<and> lengths_at block_cut 4 = Inl DecodeException"
    using l by (simp add: block_cut_def)
  have h3: "unshared ?it + value_len ?it \<le> buf_len ?it \<and>
    buf ?it + unshared ?it + value_len ?it < data_end block_cut \<and>
    lengths_at block_cut (buf ?it + unshared ?it + value_len ?it) = Inl DecodeException"
    using l by (simp add: block_cut_def)
  from init_decode_failure_is_status[of 4 block_cut ?it] h1 h3 b l show ?thesis
    by (intro exI[of _ ?it]) auto
qed

lemma uint32_of_int_nat: "n < 2 ^ 32 \<Longrightarrow> uint32_of_int (int n) = n"
proof -
  assume "n < 2 ^ 32"
  then have "int n < 2 ^ 32" by simp
  then have "int n mod 2 ^ 32 = int n" by simp
  then show ?thesis by (simp add: uint32_of_int_def)
qed

lemma int_of_uint32_nat: "n < 2 ^ 31 \<Longrightarrow> int_of_uint32 n = int n"
  by (simp add: int_of_uint32_def)

lemma int_div2_nat: "int_div2 (int a + int b) = int ((a + b) div 2)"
  by (simp add: int_div2_def zdiv_int)

lemma lower_bound_search_spec:
  assumes keys: "\<forall>i<n. keyAtRestartPoint b i = Inr (K i)" and small: "n \<le> 2 ^ 30"
    and bnd: "lb < rb" "rb \<le> n"
    and inv: "lb = 0 \<or> comp b (K lb) target < 0" "rb = n \<or> 0 \<le> comp b (K rb) target"
  shows "\<exists>l. lower_bound_search b target (int lb) (int rb) = Inr (int l, int l + 1) \<and>
           lb \<le> l \<and> l < rb \<and>
           (l = 0 \<or> comp b (K l) target < 0) \<and> (l + 1 = n \<or> 0 \<le> comp b (K (l + 1)) target)"
  using bnd inv
proof (induction "rb - lb" arbitrary: lb rb rule: less_induct)
  case less
  note bnd = less.prems(1,2) and inv = less.prems(3,4)
  have rn: "rb \<le> 2 ^ 30" using bnd(2) small by simp
  then have ri: "int rb \<le> 2 ^ 30" and li: "int lb < 2 ^ 30"
    using bnd(1) by simp_all
  have no1: "\<not> int_overflows (int rb - int lb)" and no2: "\<not> int_overflows (int lb + int rb)"
    using ri li bnd(1) by (simp_all add: int_overflows_def)
  show ?case
  proof (cases "rb - lb > 1")
    case False
    with bnd have r: "rb = lb + 1" by simp
    have "lower_bound_search b target (int lb) (int rb) = Inr (int lb, int lb + 1)"
      using no1 r by (subst lower_bound_search.simps) simp
    then show ?thesis using inv r by auto
  next
    case True
    let ?mid = "(lb + rb) div 2"
    have m: "lb < ?mid" "?mid < rb" using True by auto
    then have mn: "?mid < n" using bnd by simp
    with keys have km: "keyAtRestartPoint b ?mid = Inr (K ?mid)" by blast
    have "?mid < 2 ^ 32" using m(2) rn by simp
    then have u: "uint32_of_int (int_div2 (int lb + int rb)) = ?mid"
      unfolding int_div2_nat by (rule uint32_of_int_nat)
    have gt: "int rb - int lb > 1" using True by simp
    show ?thesis
    proof (cases "0 \<le> comp b (K ?mid) target")
      case ge: True
      have "\<exists>l. lower_bound_search b target (int lb) (int ?mid) = Inr (int l, int l + 1) \<and>
           lb \<le> l \<and> l < ?mid \<and>
           (l = 0 \<or> comp b (K l) target < 0) \<and> (l + 1 = n \<or> 0 \<le> comp b (K (l + 1)) target)"
        by (rule less.hyps) (use m mn inv ge in auto)
      moreover have "lower_bound_search b target (int lb) (int rb) =
          lower_bound_search b target (int lb) (int ?mid)"
        using gt no1 no2 km ge u
        by (subst lower_bound_search.simps) (simp add: int_div2_nat)
      ultimately show ?thesis using m by auto
    next
      case lt: False
      have "\<exists>l. lower_bound_search b target (int ?mid) (int rb) = Inr (int l, int l + 1) \<and>
           ?mid \<le> l \<and> l < rb \<and>
           (l = 0 \<or> comp b (K l) target < 0) \<and> (l + 1 = n \<or> 0 \<le> comp b (K (l + 1)) target)"
        by (rule less.hyps) (use m bnd inv lt in auto)
      moreover have "lower_bound_search b target (int lb) (int rb) =
          lower_bound_search b target (int ?mid) (int rb)"
        using gt no1 no2 km lt u
        by (subst lower_bound_search.simps) (simp add: int_div2_nat)
      ultimately show ?thesis using m by auto
    qed
  qed
qed

lemma lower_bound_search_negative_rb:
  assumes "2 ^ 31 \<le> num_restart b" and "num_restart b < 2 ^ 32"
  shows "lower_bound_search b target 0 (int_of_uint32 (num_restart b)) =
           Inr (0, int (num_restart b) - 2 ^ 32)"
proof -
  have r: "int_of_uint32 (num_restart b) = int (num_restart b) - 2 ^ 32"
    using assms by (simp add: int_of_uint32_def)
  have "int (num_restart b) < 2 ^ 32" "(2 :: int) ^ 31 \<le> int (num_restart b)"
    using assms by simp_all
  then show ?thesis unfolding r
    by (subst lower_bound_search.simps) (simp add: int_overflows_def)
qed

lemmas entry_eval = entry_at_def lengths_at_def GetVar32_def restartPoint_def ReadNum32_def

text \<open>
  Claim C3, at an input where the code departs from it.  In the block of the spec's
  example the restart keys are \<open>aa\<close> and \<open>ba\<close>; for the target \<open>ba\<close> the binary
  search ends on the restart index 0, the last one whose key is less than the target,
  and the advance from its offset has to pass \<open>aa\<close>, \<open>ab\<close> and \<open>ac\<close> and stop on
  the fourth entry, \<open>ba\<close>.  \<open>lower_bound\<close> returns the cursor on the third entry, at
  the offset 14, whose full key \<open>ac\<close> is less than the target: \<open>Key()\<close> has built
  \<open>bc\<close> for it, from the bytes that the second entry stores, and the loop stops on
  that.
\<close>

theorem lower_bound_stops_on_smaller_key:
  "keyAtRestartPoint block6 0 = Inr [0x61, 0x61] \<and>
   keyAtRestartPoint block6 1 = Inr [0x62, 0x61] \<and>
   lower_bound_search block6 [0x62, 0x61] 0 (int_of_uint32 (num_restart block6)) = Inr (0, 1) \<and>
   restartPoint block6 0 = Inr 0 \<and>
   decodes_to block6 0 block6_entries \<and>
   full_keys (data block6) [] block6_entries =
     [[0x61, 0x61], [0x61, 0x62], [0x61, 0x63], [0x62, 0x61], [0x62, 0x62], [0x62, 0x63]] \<and>
   e_buf (block6_entries ! 2) = 14 \<and>
   comp block6 [0x61, 0x63] [0x62, 0x61] < 0 \<and>
   Block_lower_bound block6 [0x62, 0x61] =
     Some (Inr \<lparr>buf = 14, buf_len = 18, shared = 1, unshared = 1, value_len = 1,
                last_key = Some 9, restart_pos = 0, key_str = [0x62, 0x63], stat = OK\<rparr>)"
proof (intro conjI)
  show "keyAtRestartPoint block6 0 = Inr [0x61, 0x61]"
    by (simp add: block_eval block6_def block6_bytes_def)
  show "keyAtRestartPoint block6 1 = Inr [0x62, 0x61]"
    by (simp add: block_eval block6_def block6_bytes_def)
  show "lower_bound_search block6 [0x62, 0x61] 0 (int_of_uint32 (num_restart block6)) = Inr (0, 1)"
    by (simp add: block_eval block6_def block6_bytes_def)
  show "restartPoint block6 0 = Inr 0"
    by (simp add: block_eval block6_def block6_bytes_def)
  show "decodes_to block6 0 block6_entries"
    by (simp add: block6_entries_def entry_eval block6_def block6_bytes_def)
  show "full_keys (data block6) [] block6_entries =
     [[0x61, 0x61], [0x61, 0x62], [0x61, 0x63], [0x62, 0x61], [0x62, 0x62], [0x62, 0x63]]"
    by (simp add: block6_entries_def block6_def block6_bytes_def)
  show "e_buf (block6_entries ! 2) = 14" by (simp add: block6_entries_def)
  show "comp block6 [0x61, 0x63] [0x62, 0x61] < 0" by (simp add: block6_def)
  show "Block_lower_bound block6 [0x62, 0x61] =
     Some (Inr \<lparr>buf = 14, buf_len = 18, shared = 1, unshared = 1, value_len = 1,
                last_key = Some 9, restart_pos = 0, key_str = [0x62, 0x63], stat = OK\<rparr>)"
    by (simp add: block_eval block6_def block6_bytes_def)
qed
subsection \<open>The restart search and the scan against a linear scan of the entries\<close>

lemma decode_var32_count:
  "decode_var32 i bs = Some (v, c) \<Longrightarrow> 1 \<le> c \<and> c \<le> length bs"
proof (induction bs arbitrary: i v c)
  case Nil
  then show ?case by simp
next
  case (Cons b bs)
  then show ?case by (fastforce split: if_splits)
qed

lemma GetVar32_Inr:
  assumes "GetVar32 d s = Inr (v, s')"
  shows "RawData s + Len s \<le> length d \<and> RawData s < RawData s' \<and>
         RawData s' + Len s' = RawData s + Len s"
proof -
  from assms obtain v' c where
    c: "RawData s + Len s \<le> length d" "decode_var32 0 (take (Len s) (drop (RawData s) d)) = Some (v', c)"
    "s' = \<lparr>RawData = RawData s + c, Len = Len s - c\<rparr>"
    by (auto simp: GetVar32_def split: if_splits option.splits)
  from decode_var32_count[OF c(2)] c(1) have "1 \<le> c" "c \<le> Len s" by auto
  then show ?thesis using c(1,3) by simp
qed

lemma lengths_at_Inr:
  assumes "lengths_at b p = Inr (sh, un, vl, s)" and "p \<le> data_end b"
  shows "p < RawData s \<and> RawData s + Len s = data_end b \<and> data_end b \<le> length (data b)"
proof -
  from assms(1) obtain s1 s2 where
    g: "GetVar32 (data b) \<lparr>RawData = p, Len = data_end b - p\<rparr> = Inr (sh, s1)"
    "GetVar32 (data b) s1 = Inr (un, s2)" "GetVar32 (data b) s2 = Inr (vl, s)"
    by (auto simp: lengths_at_def bindE_def split: sum.splits prod.splits)
  from GetVar32_Inr[OF g(1)] GetVar32_Inr[OF g(2)] GetVar32_Inr[OF g(3)] assms(2)
  show ?thesis by simp
qed

lemma entry_at_Some:
  assumes "entry_at b p = Some e"
  shows "e_pos e = p \<and> p < data_end b \<and> p < e_buf e \<and> e_buf e + e_buf_len e = data_end b \<and>
         data_end b \<le> length (data b) \<and>
         lengths_at b p = Inr (e_shared e, e_unshared e, e_value_len e,
                               \<lparr>RawData = e_buf e, Len = e_buf_len e\<rparr>)"
proof -
  from assms obtain sh un vl s where
    l: "p < data_end b" "lengths_at b p = Inr (sh, un, vl, s)"
    "e = \<lparr>e_pos = p, e_shared = sh, e_unshared = un, e_value_len = vl,
          e_buf = RawData s, e_buf_len = Len s\<rparr>"
    by (auto simp: entry_at_def split: if_splits sum.splits prod.splits)
  from lengths_at_Inr[OF l(2)] l show ?thesis by simp
qed

lemma init_entry:
  assumes "entry_at b p = Some e"
  shows "init b it p =
     Inr (it\<lparr>shared := e_shared e, unshared := e_unshared e, value_len := e_value_len e,
             buf := e_buf e, buf_len := e_buf_len e,
             restart_pos := (if e_unshared e = 0 then p else restart_pos it)\<rparr>)"
proof -
  from entry_at_Some[OF assms] have p: "p < data_end b"
    and l: "lengths_at b p = Inr (e_shared e, e_unshared e, e_value_len e,
                               \<lparr>RawData = e_buf e, Len = e_buf_len e\<rparr>)"
    by simp_all
  from l obtain s1 s2 where
    g: "GetVar32 (data b) \<lparr>RawData = p, Len = data_end b - p\<rparr> = Inr (e_shared e, s1)"
    "GetVar32 (data b) s1 = Inr (e_unshared e, s2)"
    "GetVar32 (data b) s2 = Inr (e_value_len e, \<lparr>RawData = e_buf e, Len = e_buf_len e\<rparr>)"
    by (auto simp: lengths_at_def bindE_def split: sum.splits prod.splits)
  show ?thesis using p g by (simp add: init_def)
qed

lemma init_end: "init b it (data_end b) = Inr (it\<lparr>buf := data_end b, buf_len := 0\<rparr>)"
  by (simp add: init_def)

lemma decodes_to_drop:
  "decodes_to b p es \<Longrightarrow> j < length es \<Longrightarrow> decodes_to b (e_pos (es ! j)) (drop j es)"
proof (induction es arbitrary: p j)
  case Nil
  then show ?case by simp
next
  case (Cons e es)
  show ?case
  proof (cases j)
    case 0
    then show ?thesis using Cons.prems entry_at_Some[of b p e] by simp
  next
    case (Suc j')
    with Cons.prems have "decodes_to b (e_buf e + e_unshared e + e_value_len e) es" "j' < length es"
      by simp_all
    from Cons.IH[OF this] Suc show ?thesis by simp
  qed
qed

lemma decodes_to_nth:
  assumes "decodes_to b p es" and "j < length es"
  shows "entry_at b (e_pos (es ! j)) = Some (es ! j) \<and>
         e_unshared (es ! j) + e_value_len (es ! j) \<le> e_buf_len (es ! j) \<and>
         (if Suc j < length es
          then e_pos (es ! Suc j) = e_buf (es ! j) + e_unshared (es ! j) + e_value_len (es ! j)
          else e_buf (es ! j) + e_unshared (es ! j) + e_value_len (es ! j) = data_end b)"
proof -
  from assms(2) have d: "drop j es = es ! j # drop (Suc j) es" by (simp add: Cons_nth_drop_Suc)
  from decodes_to_drop[OF assms] have
    a: "entry_at b (e_pos (es ! j)) = Some (es ! j)"
    "e_unshared (es ! j) + e_value_len (es ! j) \<le> e_buf_len (es ! j)"
    "decodes_to b (e_buf (es ! j) + e_unshared (es ! j) + e_value_len (es ! j)) (drop (Suc j) es)"
    unfolding d by simp_all
  show ?thesis
  proof (cases "Suc j < length es")
    case True
    then have "drop (Suc j) es = es ! Suc j # drop (Suc (Suc j)) es" by (simp add: Cons_nth_drop_Suc)
    with a(3) have "entry_at b (e_buf (es ! j) + e_unshared (es ! j) + e_value_len (es ! j)) = Some (es ! Suc j)"
      by simp
    from entry_at_Some[OF this] a True show ?thesis by simp
  next
    case False
    with assms(2) have "drop (Suc j) es = []" by simp
    with a False show ?thesis by simp
  qed
qed

lemma length_full_keys: "length (full_keys d prev es) = length es"
  by (induction es arbitrary: prev) simp_all

lemma full_keys_nth:
  "j < length es \<Longrightarrow>
   full_keys d prev es ! j =
     take (e_shared (es ! j)) (if j = 0 then prev else full_keys d prev es ! (j - 1)) @
     take (e_unshared (es ! j)) (drop (e_buf (es ! j)) d)"
proof (induction es arbitrary: prev j)
  case Nil
  then show ?case by simp
next
  case (Cons e es)
  show ?case
  proof (cases j)
    case 0
    then show ?thesis by simp
  next
    case (Suc j')
    then show ?thesis using Cons.prems Cons.IH[of j' "take (e_shared e) prev @ take (e_unshared e) (drop (e_buf e) d)"]
      by (cases j') simp_all
  qed
qed


lemma Key_restart:
  assumes e: "entry_at b (e_pos e) = Some e" "e_shared e = 0" "e_buf e < data_end b"
      "e_unshared e + e_value_len e \<le> e_buf_len e"
    and it: "on_entry it e" "last_key it = None" "key_str it = []" "restart_pos it = e_pos e"
  shows "Key b it = Some (Inr (take (e_unshared e) (drop (e_buf e) (data b)),
                              it\<lparr>key_str := take (e_unshared e) (drop (e_buf e) (data b))\<rparr>))"
proof -
  from entry_at_Some[OF e(1)] have f: "e_buf e + e_buf_len e = data_end b" "data_end b \<le> length (data b)"
    by simp_all
  from it(1) have o: "buf it = e_buf e" "shared it = e_shared e" "unshared it = e_unshared e"
    by (simp_all add: on_entry_def)
  obtain r where r: "BlockConstIterator_new b (e_pos e) (e_pos e) = Inr r" "buf r = e_buf e"
    unfolding BlockConstIterator_new_def init_entry[OF e(1)] by simp
  have rp: "Key_replay b r (buf it) = Some (Inr r)"
    by (subst Key_replay.simps) (simp add: r(2) o(1))
  have ba: "bytes_at (data b) (buf it) (unshared it) = Inr (take (e_unshared e) (drop (e_buf e) (data b)))"
    using f e(4) by (simp add: bytes_at_def o)
  show ?thesis
    using e(2,3) it(2,3,4) r rp ba o by (simp add: Key_def)
qed

lemma Key_seq:
  assumes e: "e_buf e < data_end b" "e_unshared e + e_value_len e \<le> e_buf_len e"
      "e_buf e + e_buf_len e = data_end b" "data_end b \<le> length (data b)"
    and it: "on_entry it e" "last_key it = Some lk" "key_str it = []"
    and pre: "bytes_at (data b) lk (e_shared e) = Inr pre"
  shows "Key b it = Some (Inr (pre @ take (e_unshared e) (drop (e_buf e) (data b)),
                              it\<lparr>key_str := pre @ take (e_unshared e) (drop (e_buf e) (data b))\<rparr>))"
proof -
  from it(1) have o: "buf it = e_buf e" "shared it = e_shared e" "unshared it = e_unshared e"
    by (simp_all add: on_entry_def)
  have ba: "bytes_at (data b) (buf it) (unshared it) = Inr (take (e_unshared e) (drop (e_buf e) (data b)))"
    using e by (simp add: bytes_at_def o)
  show ?thesis
    using e(1) it(2,3) pre ba o by (simp add: Key_def)
qed

lemma Key_cached:
  assumes "Key b it = Some (Inr (k, it\<lparr>key_str := k\<rparr>))" and "key_str it = []"
  shows "Key b (it\<lparr>key_str := k\<rparr>) = Some (Inr (k, it\<lparr>key_str := k\<rparr>))"
proof (cases "k = []")
  case True
  then have "it\<lparr>key_str := k\<rparr> = it" using assms(2) by simp
  then show ?thesis using assms(1) by simp
next
  case False
  from assms(1) have "buf it \<noteq> data_end b" by (auto simp: Key_def split: if_splits)
  then show ?thesis using False by (simp add: Key_def)
qed

lemma Block_end_eq:
  "Block_end b = Inr \<lparr>buf = data_end b, buf_len = 0, shared = 0, unshared = 0, value_len = 0,
      last_key = None, restart_pos = 0, key_str = [], stat = OK\<rparr>"
  by (simp add: Block_end_def BlockConstIterator_new_def init_def)

lemma increment_next:
  assumes "on_entry it e" and "e_unshared e + e_value_len e \<le> e_buf_len e"
  shows "increment b it =
     bindE (init b (it\<lparr>last_key := Some (e_buf e)\<rparr>) (e_buf e + e_unshared e + e_value_len e))
       (\<lambda>it'. Inr (it'\<lparr>key_str := []\<rparr>))"
proof -
  from assms(2) have "e_unshared e \<le> e_buf_len e" "e_value_len e \<le> e_buf_len e - e_unshared e"
    by simp_all
  then show ?thesis using assms(1) by (simp add: increment_def Skip_def on_entry_def add.assoc)
qed


lemma Key_at:
  assumes A1: "data_end b \<le> length (data b)" and A2: "decodes_to b 0 es"
    and A3: "ks = full_keys (data b) [] es" and A4: "\<forall>e\<in>set es. e_buf e < data_end b"
    and A5: "\<forall>i. Suc i < length es \<longrightarrow>
               bytes_at (data b) (e_buf (es ! i)) (e_shared (es ! Suc i)) =
                 Inr (take (e_shared (es ! Suc i)) (ks ! i))"
    and c: "cursor_at b es it j" and j: "j < length es"
  shows "Key b it = Some (Inr (ks ! j, it\<lparr>key_str := ks ! j\<rparr>))"
proof -
  let ?e = "es ! j"
  from decodes_to_nth[OF A2 j] have
    e: "entry_at b (e_pos ?e) = Some ?e" "e_unshared ?e + e_value_len ?e \<le> e_buf_len ?e"
    by simp_all
  from A4 j have lt: "e_buf ?e < data_end b" by simp
  from c j have o: "on_entry it ?e" "key_str it = []"
    and cases: "(last_key it = None \<and> e_shared ?e = 0 \<and> restart_pos it = e_pos ?e) \<or>
            (0 < j \<and> last_key it = Some (e_buf (es ! (j - 1))))"
    by (simp_all add: cursor_at_def)
  have kj: "ks ! j = take (e_shared ?e) (if j = 0 then [] else ks ! (j - 1)) @
     take (e_unshared ?e) (drop (e_buf ?e) (data b))"
    unfolding A3 by (rule full_keys_nth[OF j])
  from cases show ?thesis
  proof
    assume r: "last_key it = None \<and> e_shared ?e = 0 \<and> restart_pos it = e_pos ?e"
    then have "ks ! j = take (e_unshared ?e) (drop (e_buf ?e) (data b))" using kj by simp
    then show ?thesis using Key_restart[OF e(1) _ lt e(2) o(1) _ o(2)] r by simp
  next
    assume s: "0 < j \<and> last_key it = Some (e_buf (es ! (j - 1)))"
    then have "Suc (j - 1) < length es" "Suc (j - 1) = j" using j by simp_all
    with A5 have pre: "bytes_at (data b) (e_buf (es ! (j - 1))) (e_shared ?e) =
                 Inr (take (e_shared ?e) (ks ! (j - 1)))"
      by metis
    from entry_at_Some[OF e(1)] have f: "e_buf ?e + e_buf_len ?e = data_end b" by simp
    have "ks ! j = take (e_shared ?e) (ks ! (j - 1)) @ take (e_unshared ?e) (drop (e_buf ?e) (data b))"
      using kj s by simp
    then show ?thesis using Key_seq[OF lt e(2) f A1 o(1) _ o(2) pre] s by simp
  qed
qed

lemma increment_at:
  assumes A2: "decodes_to b 0 es" and o: "on_entry it (es ! j)" and j: "j < length es"
  shows "\<exists>it2. increment b it = Inr it2 \<and> cursor_at b es it2 (Suc j)"
proof -
  let ?e = "es ! j"
  let ?p = "e_buf ?e + e_unshared ?e + e_value_len ?e"
  from decodes_to_nth[OF A2 j] have
    e: "e_unshared ?e + e_value_len ?e \<le> e_buf_len ?e"
    "if Suc j < length es then e_pos (es ! Suc j) = ?p else ?p = data_end b"
    by simp_all
  note inc = increment_next[OF o e(1), of b]
  show ?thesis
  proof (cases "Suc j < length es")
    case True
    with e(2) have p: "e_pos (es ! Suc j) = ?p" by simp
    from decodes_to_nth[OF A2 True] have "entry_at b ?p = Some (es ! Suc j)" unfolding p by simp
    from init_entry[OF this] show ?thesis
      unfolding inc using True by (simp add: cursor_at_def on_entry_def)
  next
    case False
    with e(2) have p: "?p = data_end b" by simp
    show ?thesis unfolding inc p init_end using False by (simp add: cursor_at_def)
  qed
qed

lemma scan_from:
  assumes A1: "data_end b \<le> length (data b)" and A2: "decodes_to b 0 es"
    and A3: "ks = full_keys (data b) [] es" and A4: "\<forall>e\<in>set es. e_buf e < data_end b"
    and A5: "\<forall>i. Suc i < length es \<longrightarrow>
               bytes_at (data b) (e_buf (es ! i)) (e_shared (es ! Suc i)) =
                 Inr (take (e_shared (es ! Suc i)) (ks ! i))"
    and n: "length es - j = n" and c: "cursor_at b es it j" and j: "j \<le> length es"
  shows "\<exists>it'. lower_bound_scan b target it = Some (Inr it') \<and>
           cursor_on b it' (List.find (\<lambda>(e, k). 0 \<le> comp b k target) (drop j (zip es ks))) \<and>
           (\<forall>e k. List.find (\<lambda>(e, k). 0 \<le> comp b k target) (drop j (zip es ks)) = Some (e, k) \<longrightarrow>
                  Key b it' = Some (Inr (k, it')))"
  using n c j
proof (induction n arbitrary: j it)
  case 0
  then have je: "j = length es" by simp
  with "0.prems"(2) have "buf it = data_end b" "buf_len it = 0" by (simp_all add: cursor_at_def)
  then have "lower_bound_scan b target it = Some (Inr it)"
    by (subst lower_bound_scan.simps) (simp add: Block_end_eq iter_equal_def)
  then show ?case using je \<open>buf it = data_end b\<close> \<open>buf_len it = 0\<close> by (simp add: cursor_on_def)
next
  case (Suc n)
  then have j: "j < length es" by simp
  let ?P = "\<lambda>(e, k). 0 \<le> comp b k target"
  have lk: "length ks = length es" unfolding A3 by (rule length_full_keys)
  have d: "drop j (zip es ks) = (es ! j, ks ! j) # drop (Suc j) (zip es ks)"
    using j lk by (simp add: Cons_nth_drop_Suc[symmetric])
  from Suc.prems(2) j have o: "on_entry it (es ! j)" by (simp add: cursor_at_def)
  from A4 j have lt: "e_buf (es ! j) < data_end b" by simp
  then have ne: "\<not> iter_equal it \<lparr>buf = data_end b, buf_len = 0, shared = 0, unshared = 0,
      value_len = 0, last_key = None, restart_pos = 0, key_str = [], stat = OK\<rparr>"
    using o by (simp add: iter_equal_def on_entry_def)
  let ?it1 = "it\<lparr>key_str := ks ! j\<rparr>"
  have k: "Key b it = Some (Inr (ks ! j, ?it1))"
    by (rule Key_at[OF A1 A2 A3 A4 A5 Suc.prems(2) j])
  have ks0: "key_str it = []" using Suc.prems(2) j by (simp add: cursor_at_def)
  show ?case
  proof (cases "0 \<le> comp b (ks ! j) target")
    case True
    have "lower_bound_scan b target it = Some (Inr ?it1)"
      by (subst lower_bound_scan.simps) (simp add: Block_end_eq ne k True)
    moreover have "List.find ?P (drop j (zip es ks)) = Some (es ! j, ks ! j)"
      unfolding d using True by simp
    moreover have "cursor_on b ?it1 (Some (es ! j, ks ! j))"
      using o by (simp add: cursor_on_def on_entry_def)
    moreover have "Key b ?it1 = Some (Inr (ks ! j, ?it1))" by (rule Key_cached[OF k ks0])
    ultimately show ?thesis by simp
  next
    case False
    have o1: "on_entry ?it1 (es ! j)" using o by (simp add: on_entry_def)
    from increment_at[OF A2 o1 j] obtain it2 where
      it2: "increment b ?it1 = Inr it2" "cursor_at b es it2 (Suc j)" by blast
    have "\<exists>it'. lower_bound_scan b target it2 = Some (Inr it') \<and>
           cursor_on b it' (List.find ?P (drop (Suc j) (zip es ks))) \<and>
           (\<forall>e k. List.find ?P (drop (Suc j) (zip es ks)) = Some (e, k) \<longrightarrow>
                  Key b it' = Some (Inr (k, it')))"
      by (rule Suc.IH[OF _ it2(2)]) (use Suc.prems(1) j in simp_all)
    moreover have "lower_bound_scan b target it = lower_bound_scan b target it2"
      by (subst lower_bound_scan.simps) (simp add: Block_end_eq ne k False it2(1))
    moreover have "List.find ?P (drop j (zip es ks)) = List.find ?P (drop (Suc j) (zip es ks))"
      unfolding d using False by simp
    ultimately show ?thesis by simp
  qed
qed


lemma keyAtRestartPoint_entry:
  assumes rp: "restartPoint b i = Inr (e_pos e)" and e: "entry_at b (e_pos e) = Some e"
    and sh: "e_shared e = 0" and le: "e_unshared e + e_value_len e \<le> e_buf_len e"
  shows "keyAtRestartPoint b i = Inr (take (e_unshared e) (drop (e_buf e) (data b)))"
proof -
  from entry_at_Some[OF e] have f: "e_buf e + e_buf_len e = data_end b" "data_end b \<le> length (data b)"
    and l: "lengths_at b (e_pos e) = Inr (e_shared e, e_unshared e, e_value_len e,
                               \<lparr>RawData = e_buf e, Len = e_buf_len e\<rparr>)"
    by simp_all
  from l obtain s1 s2 where
    g: "GetVar32 (data b) \<lparr>RawData = e_pos e, Len = data_end b - e_pos e\<rparr> = Inr (e_shared e, s1)"
    "GetVar32 (data b) s1 = Inr (e_unshared e, s2)"
    "GetVar32 (data b) s2 = Inr (e_value_len e, \<lparr>RawData = e_buf e, Len = e_buf_len e\<rparr>)"
    by (auto simp: lengths_at_def bindE_def split: sum.splits prod.splits)
  have "bytes_at (data b) (e_buf e) (e_unshared e) = Inr (take (e_unshared e) (drop (e_buf e) (data b)))"
    using f le by (simp add: bytes_at_def)
  then show ?thesis using rp g sh by (simp add: keyAtRestartPoint_def)
qed

lemma new_cursor_at:
  assumes A2: "decodes_to b 0 es" and m: "m < length es" and sh: "e_shared (es ! m) = 0"
  shows "\<exists>it. BlockConstIterator_new b (e_pos (es ! m)) (e_pos (es ! m)) = Inr it \<and>
              cursor_at b es it m"
proof -
  from decodes_to_nth[OF A2 m] have "entry_at b (e_pos (es ! m)) = Some (es ! m)" by simp
  from init_entry[OF this] show ?thesis
    unfolding BlockConstIterator_new_def using m sh by (simp add: cursor_at_def on_entry_def)
qed

lemma find_drop:
  "\<forall>x\<in>set (take n xs). \<not> P x \<Longrightarrow> List.find P xs = List.find P (drop n xs)"
proof (induction xs arbitrary: n)
  case Nil
  then show ?case by simp
next
  case (Cons x xs)
  then show ?case by (cases n) simp_all
qed

lemma linear_find_from_lower_bound:
  fixes c :: "byte list \<Rightarrow> byte list \<Rightarrow> int"
  assumes so: "sorted_wrt (\<lambda>x y. c x y < 0) (map snd eks)"
    and law: "\<forall>x y z. c x y < 0 \<and> c y z \<le> 0 \<longrightarrow> c x z < 0"
    and lb: "List.find (\<lambda>(e, k). 0 \<le> c k t) eks = Some (e, k)"
  shows "List.find (\<lambda>(e, k). c k t = 0) eks = (if c k t = 0 then Some (e, k) else None)"
proof -
  have P: "(\<lambda>(e, k). 0 \<le> c k t) = (\<lambda>x. 0 \<le> c (snd x) t)"
    and Q: "(\<lambda>(e, k). c k t = 0) = (\<lambda>x. c (snd x) t = 0)"
    by (simp_all add: case_prod_beta fun_eq_iff)
  from lb have "\<exists>i<length eks. 0 \<le> c (snd (eks ! i)) t \<and> (e, k) = eks ! i \<and>
      (\<forall>j<i. \<not> 0 \<le> c (snd (eks ! j)) t)"
    unfolding P find_Some_iff .
  then obtain i where i0: "i < length eks" "0 \<le> c (snd (eks ! i)) t" "(e, k) = eks ! i"
    "\<forall>j<i. \<not> 0 \<le> c (snd (eks ! j)) t"
    by blast
  have ie: "eks ! i = (e, k)" using i0(3) by (rule sym)
  have ik: "0 \<le> c k t" using i0(2) unfolding ie by simp
  note i = i0(1) ie ik i0(4)
  show ?thesis
  proof (cases "c k t = 0")
    case True
    have "\<forall>j<i. \<not> c (snd (eks ! j)) t = 0"
    proof (intro allI impI)
      fix j assume "j < i"
      with i(4) have "\<not> 0 \<le> c (snd (eks ! j)) t" by blast
      then show "\<not> c (snd (eks ! j)) t = 0" by simp
    qed
    then have "List.find (\<lambda>x. c (snd x) t = 0) eks = Some (e, k)"
      unfolding find_Some_iff using i(1,2) True by auto
    then show ?thesis unfolding Q using True by simp
  next
    case False
    have "\<not> c (snd x) t = 0" if x: "x \<in> set eks" for x
    proof -
      from x obtain j where j: "j < length eks" "eks ! j = x" by (auto simp: in_set_conv_nth)
      consider "j < i" | "j = i" | "i < j" by linarith
      then show ?thesis
      proof cases
        case 1
        with i(4) have "\<not> 0 \<le> c (snd (eks ! j)) t" by blast
        then show ?thesis using j(2) by simp
      next
        case 2
        with j(2) i(2) have "snd x = k" by (metis snd_conv)
        then show ?thesis using False by simp
      next
        case 3
        from sorted_wrt_nth_less[OF so 3] j(1) have "c (snd (eks ! i)) (snd (eks ! j)) < 0"
          using i(1) by simp
        then have lt: "c k (snd x) < 0" using i(2) j(2) by simp
        show ?thesis
        proof
          assume "c (snd x) t = 0"
          then have "c (snd x) t \<le> 0" by simp
          with lt law have "c k t < 0" by blast
          with i(3) show False by simp
        qed
      qed
    qed
    then have "List.find (\<lambda>x. c (snd x) t = 0) eks = None" unfolding find_None_iff by blast
    then show ?thesis unfolding Q using False by simp
  qed
qed


text \<open>
  Claim C2, amended.  Take a block that satisfies the restart invariants, with at most
  \<open>2^30\<close> restart points, in which the key and value bytes of every entry start before
  the end of the entries (no entry is empty), and in which the shared prefix of each
  entry is also a prefix of the bytes stored for the entry before it, so that \<open>Key()\<close>
  builds the full keys; take a comparator for which \<open>x < y\<close> and \<open>y \<le> z\<close> give
  \<open>x < z\<close>.  For a probe that is not less than the first key, \<open>lower_bound\<close> returns
  the cursor on the entry that a linear scan over all decoded entries finds, the end
  cursor when the scan finds none; and when the scan finds an entry, \<open>find\<close> returns
  the cursor on the first entry with an equal key, the end cursor when there is none.
  For a probe less than the first key, \<open>lower_bound\<close> returns the end cursor.
\<close>

theorem lower_bound_find_match_linear_scan:
  assumes inv: "restart_invariants b es ks M"
    and law: "\<forall>x y z. comp b x y < 0 \<and> comp b y z \<le> 0 \<longrightarrow> comp b x z < 0"
    and A4: "\<forall>e\<in>set es. e_buf e < data_end b"
    and A5: "\<forall>i. Suc i < length es \<longrightarrow>
               bytes_at (data b) (e_buf (es ! i)) (e_shared (es ! Suc i)) =
                 Inr (take (e_shared (es ! Suc i)) (ks ! i))"
  shows "(comp b (ks ! 0) target \<le> 0 \<longrightarrow>
           (\<exists>it. Block_lower_bound b target = Some (Inr it) \<and>
                 cursor_on b it (linear_lower_bound (comp b) target (zip es ks)) \<and>
                 (linear_lower_bound (comp b) target (zip es ks) \<noteq> None \<longrightarrow>
                    (\<exists>r. Block_find b target = Some r \<and>
                       (case linear_find (comp b) target (zip es ks) of
                          None \<Rightarrow> r = Block_end b
                        | Some ek \<Rightarrow> \<exists>it'. r = Inr it' \<and> cursor_on b it' (Some ek)))))) \<and>
         (0 < comp b (ks ! 0) target \<longrightarrow> Block_lower_bound b target = Some (Block_end b))"
proof -
  let ?n = "num_restart b"
  let ?K = "\<lambda>i. ks ! M i"
  let ?P = "\<lambda>(e, k). 0 \<le> comp b k target"
  from inv have A1: "data_end b \<le> length (data b)" and A2: "decodes_to b 0 es"
    and A3: "ks = full_keys (data b) [] es"
    and so: "sorted_wrt (\<lambda>x y. comp b x y < 0) ks"
    and n: "0 < ?n" and small: "?n \<le> 2 ^ 30" and M0: "M 0 = 0"
    and Mi: "\<And>i j. i < j \<Longrightarrow> j < ?n \<Longrightarrow> M i < M j"
    and R: "\<And>i. i < ?n \<Longrightarrow> M i < length es \<and> restartPoint b i = Inr (e_pos (es ! M i)) \<and>
                         e_shared (es ! M i) = 0"
    by (auto simp: restart_invariants_def)
  have lk: "length ks = length es" unfolding A3 by (rule length_full_keys)
  have tr: "comp b x y < 0 \<Longrightarrow> comp b y z \<le> 0 \<Longrightarrow> comp b x z < 0" for x y z
    using law by blast
  have keyR: "keyAtRestartPoint b i = Inr (?K i)" if i: "i < ?n" for i
  proof -
    let ?e = "es ! M i"
    from R[OF i] have m: "M i < length es" "restartPoint b i = Inr (e_pos ?e)" "e_shared ?e = 0"
      by simp_all
    from decodes_to_nth[OF A2 m(1)] have e: "entry_at b (e_pos ?e) = Some ?e"
      "e_unshared ?e + e_value_len ?e \<le> e_buf_len ?e" by simp_all
    have "ks ! M i = take (e_unshared ?e) (drop (e_buf ?e) (data b))"
      unfolding A3 using full_keys_nth[OF m(1), of "data b" "[]"] m(3) by simp
    then show ?thesis using keyAtRestartPoint_entry[OF m(2) e(1) m(3) e(2)] by simp
  qed
  then have keys: "\<forall>i<?n. keyAtRestartPoint b i = Inr (?K i)" by blast
  have soK: "comp b (?K i) (?K j) < 0" if "i < j" "j < ?n" for i j
    using sorted_wrt_nth_less[OF so Mi[OF that]] R[OF that(2)] lk by simp
  from lower_bound_search_spec[OF keys small n order_refl, of target] obtain l where
    l: "lower_bound_search b target (int 0) (int ?n) = Inr (int l, int l + 1)" "l < ?n"
    "l = 0 \<or> comp b (?K l) target < 0"
    by auto
  have "?n < 2 ^ 31" using small by simp
  then have sr: "lower_bound_search b target 0 (int_of_uint32 ?n) = Inr (int l, int l + 1)"
    using l(1) by (simp add: int_of_uint32_nat)
  have "l < 2 ^ 32" using l(2) small by simp
  then have u: "uint32_of_int (int l) = l" by (rule uint32_of_int_nat)
  have kl: "keyAtRestartPoint b l = Inr (?K l)" using keyR[OF l(2)] .
  have K0: "?K 0 = ks ! 0" using M0 by simp
  have partB: "Block_lower_bound b target = Some (Block_end b)" if gt: "0 < comp b (ks ! 0) target"
  proof -
    have "l = 0"
    proof (rule ccontr)
      assume "l \<noteq> 0"
      then have "comp b (?K l) target < 0" "comp b (?K 0) (?K l) < 0"
        using l(3) soK[of 0 l] l(2) by auto
      then have "comp b (?K 0) target < 0" using tr[of "?K 0" "?K l" target] by simp
      with gt K0 show False by simp
    qed
    then show ?thesis using sr u kl gt K0 by (simp add: Block_lower_bound_def)
  qed
  have partA: "\<exists>it. Block_lower_bound b target = Some (Inr it) \<and>
                 cursor_on b it (linear_lower_bound (comp b) target (zip es ks)) \<and>
                 (linear_lower_bound (comp b) target (zip es ks) \<noteq> None \<longrightarrow>
                    (\<exists>r. Block_find b target = Some r \<and>
                       (case linear_find (comp b) target (zip es ks) of
                          None \<Rightarrow> r = Block_end b
                        | Some ek \<Rightarrow> \<exists>it'. r = Inr it' \<and> cursor_on b it' (Some ek))))"
    if le: "comp b (ks ! 0) target \<le> 0"
  proof -
    let ?m = "M l"
    from R[OF l(2)] have m: "?m < length es" "restartPoint b l = Inr (e_pos (es ! ?m))"
      "e_shared (es ! ?m) = 0" by simp_all
    have ng: "\<not> 0 < comp b (?K l) target"
      using l(3) le K0 by (cases "l = 0") auto
    from new_cursor_at[OF A2 m(1,3)] obtain it0 where
      it0: "BlockConstIterator_new b (e_pos (es ! ?m)) (e_pos (es ! ?m)) = Inr it0"
      "cursor_at b es it0 ?m" by blast
    have lb: "Block_lower_bound b target = lower_bound_scan b target it0"
      using sr u kl ng m(2) it0(1) by (simp add: Block_lower_bound_def)
    from scan_from[OF A1 A2 A3 A4 A5 refl it0(2), of target] m(1) obtain it' where
      it': "lower_bound_scan b target it0 = Some (Inr it')"
      "cursor_on b it' (List.find ?P (drop ?m (zip es ks)))"
      "\<forall>e k. List.find ?P (drop ?m (zip es ks)) = Some (e, k) \<longrightarrow> Key b it' = Some (Inr (k, it'))"
      by auto
    have before: "\<forall>x\<in>set (take ?m (zip es ks)). \<not> ?P x"
    proof
      fix x assume "x \<in> set (take ?m (zip es ks))"
      then obtain j where j: "j < ?m" "x = zip es ks ! j"
        using m(1) lk by (auto simp: in_set_conv_nth)
      then have x: "snd x = ks ! j" using m(1) lk by simp
      from j(1) M0 have "l \<noteq> 0" by (cases "l = 0") auto
      with l(3) have c1: "comp b (?K l) target < 0" by simp
      have "comp b (ks ! j) (ks ! ?m) < 0"
        using sorted_wrt_nth_less[OF so j(1)] m(1) lk by simp
      then have "comp b (ks ! j) target < 0" using tr[of "ks ! j" "ks ! ?m" target] c1 by simp
      then show "\<not> ?P x" using x by (auto split: prod.splits)
    qed
    have fd: "List.find ?P (drop ?m (zip es ks)) = linear_lower_bound (comp b) target (zip es ks)"
      unfolding linear_lower_bound_def using find_drop[OF before] by simp
    have c: "cursor_on b it' (linear_lower_bound (comp b) target (zip es ks))"
      using it'(2) unfolding fd .
    have f: "\<exists>r. Block_find b target = Some r \<and>
                       (case linear_find (comp b) target (zip es ks) of
                          None \<Rightarrow> r = Block_end b
                        | Some ek \<Rightarrow> \<exists>it'. r = Inr it' \<and> cursor_on b it' (Some ek))"
      if ne: "linear_lower_bound (comp b) target (zip es ks) \<noteq> None"
    proof -
      from ne obtain e k where ek: "linear_lower_bound (comp b) target (zip es ks) = Some (e, k)"
        by auto
      with it'(3) fd have key: "Key b it' = Some (Inr (k, it'))" by simp
      have fnd: "Block_find b target =
          (if comp b k target \<noteq> 0 then Some (Block_end b) else Some (Inr it'))"
        using lb it'(1) key by (simp add: Block_find_def)
      have ms: "map snd (zip es ks) = ks" using lk by (simp add: map_snd_zip)
      have lf: "linear_find (comp b) target (zip es ks) =
          (if comp b k target = 0 then Some (e, k) else None)"
        unfolding linear_find_def
        by (rule linear_find_from_lower_bound[OF _ law ek[unfolded linear_lower_bound_def]])
           (simp add: ms so)
      show ?thesis
      proof (cases "comp b k target = 0")
        case True
        then show ?thesis using fnd lf c ek by simp
      next
        case False
        then show ?thesis using fnd lf by simp
      qed
    qed
    from lb it'(1) c f show ?thesis by simp
  qed
  from partA partB show ?thesis by blast
qed

lemma bytewise_le_trans:
  "bytewise x y < 0 \<Longrightarrow> bytewise y z \<le> 0 \<Longrightarrow> bytewise x z < 0"
proof (induction x y arbitrary: z rule: bytewise.induct)
  case 1
  then show ?case by simp
next
  case (2 y ys)
  then show ?case by (cases z) (auto split: if_splits)
next
  case (3 x xs)
  then show ?case by simp
next
  case (4 x xs y ys)
  then show ?case by (cases z) (auto split: if_splits)
qed

lemma block4_decodes: "decodes_to block4 0 block4_entries"
  by (simp add: block4_entries_def entry_eval block4_def block4_bytes_def)

lemma block4_full_keys: "block4_keys = full_keys (data block4) [] block4_entries"
  by (simp add: block4_entries_def block4_keys_def block4_def block4_bytes_def)

lemma block4_restarts:
  "i < num_restart block4 \<Longrightarrow>
     block4_group i < length block4_entries \<and>
     restartPoint block4 i = Inr (e_pos (block4_entries ! block4_group i)) \<and>
     e_shared (block4_entries ! block4_group i) = 0"
proof -
  assume "i < num_restart block4"
  then have "i = 0 \<or> i = 1" by (auto simp: block4_def)
  then show ?thesis
    by (auto simp: block4_group_def block4_entries_def entry_eval block4_def block4_bytes_def)
qed

lemma block4_invariants: "restart_invariants block4 block4_entries block4_keys block4_group"
  unfolding restart_invariants_def
proof (intro conjI)
  show "data_end block4 \<le> length (data block4)" by (simp add: block4_def block4_bytes_def)
  show "decodes_to block4 0 block4_entries" by (rule block4_decodes)
  show "block4_entries \<noteq> []" by (simp add: block4_entries_def)
  show "block4_keys = full_keys (data block4) [] block4_entries" by (rule block4_full_keys)
  show "sorted_wrt (\<lambda>x y. comp block4 x y < 0) block4_keys"
    by (simp add: block4_keys_def block4_def)
  show "0 < num_restart block4" by (simp add: block4_def)
  show "num_restart block4 \<le> 2 ^ 30" by (simp add: block4_def)
  show "block4_group 0 = 0" by (simp add: block4_group_def)
  show "\<forall>i j. i < j \<and> j < num_restart block4 \<longrightarrow> block4_group i < block4_group j"
    by (simp add: block4_group_def)
  show "\<forall>i<num_restart block4. block4_group i < length block4_entries \<and>
     restartPoint block4 i = Inr (e_pos (block4_entries ! block4_group i)) \<and>
     e_shared (block4_entries ! block4_group i) = 0"
    using block4_restarts by blast
qed

lemma block4_starts: "\<forall>e\<in>set block4_entries. e_buf e < data_end block4"
  by (simp add: block4_entries_def block4_def)

lemma block4_prefixes:
  "\<forall>i. Suc i < length block4_entries \<longrightarrow>
     bytes_at (data block4) (e_buf (block4_entries ! i)) (e_shared (block4_entries ! Suc i)) =
       Inr (take (e_shared (block4_entries ! Suc i)) (block4_keys ! i))"
proof (intro allI impI)
  fix i assume "Suc i < length block4_entries"
  then have "i = 0 \<or> i = 1 \<or> i = 2" by (auto simp: block4_entries_def)
  then show "bytes_at (data block4) (e_buf (block4_entries ! i)) (e_shared (block4_entries ! Suc i)) =
       Inr (take (e_shared (block4_entries ! Suc i)) (block4_keys ! i))"
    by (auto simp: block4_entries_def block4_keys_def bytes_at_def block4_def block4_bytes_def)
qed

lemma block4_law:
  "\<forall>x y z. comp block4 x y < 0 \<and> comp block4 y z \<le> 0 \<longrightarrow> comp block4 x z < 0"
  using bytewise_le_trans by (auto simp: block4_def)

lemma block4_zip:
  "zip block4_entries block4_keys =
     [(block4_entries ! 0, [0x61, 0x61]), (block4_entries ! 1, [0x61, 0x62]),
      (block4_entries ! 2, [0x62, 0x61]), (block4_entries ! 3, [0x62, 0x62])]"
  by (simp add: block4_entries_def block4_keys_def)

text \<open>
  The theorem of C2 on the block with the keys \<open>aa\<close>, \<open>ab\<close>, \<open>ba\<close>, \<open>bb\<close>: for the
  probe \<open>ab\<close>, which is a key but not a restart key; for the probe \<open>ba\<close>, which is a
  restart key; for the probe \<open>az\<close>, between two keys; for the probe \<open>z\<close>, after the last
  key; and for the probe \<open>a\<close>, before the first key.
\<close>

theorem lower_bound_find_match_linear_scan_witness:
  "restart_invariants block4 block4_entries block4_keys block4_group \<and>
   (\<exists>it. Block_lower_bound block4 [0x61, 0x62] = Some (Inr it) \<and>
         cursor_on block4 it (Some (block4_entries ! 1, [0x61, 0x62])) \<and>
         (\<exists>it'. Block_find block4 [0x61, 0x62] = Some (Inr it') \<and>
               cursor_on block4 it' (Some (block4_entries ! 1, [0x61, 0x62])))) \<and>
   (\<exists>it. Block_lower_bound block4 [0x62, 0x61] = Some (Inr it) \<and>
         cursor_on block4 it (Some (block4_entries ! 2, [0x62, 0x61])) \<and>
         (\<exists>it'. Block_find block4 [0x62, 0x61] = Some (Inr it') \<and>
               cursor_on block4 it' (Some (block4_entries ! 2, [0x62, 0x61])))) \<and>
   (\<exists>it. Block_lower_bound block4 [0x61, 0x7a] = Some (Inr it) \<and>
         cursor_on block4 it (Some (block4_entries ! 2, [0x62, 0x61])) \<and>
         Block_find block4 [0x61, 0x7a] = Some (Block_end block4)) \<and>
   (\<exists>it. Block_lower_bound block4 [0x7a] = Some (Inr it) \<and> cursor_on block4 it None) \<and>
   Block_lower_bound block4 [0x61] = Some (Block_end block4)"
proof -
  note T = lower_bound_find_match_linear_scan[OF block4_invariants block4_law block4_starts
      block4_prefixes]
  have c: "comp block4 = bytewise" by (simp add: block4_def)
  have k0: "block4_keys ! 0 = [0x61, 0x61]" by (simp add: block4_keys_def)
  have l1: "linear_lower_bound bytewise [0x61, 0x62] (zip block4_entries block4_keys) =
      Some (block4_entries ! 1, [0x61, 0x62])"
    and f1: "linear_find bytewise [0x61, 0x62] (zip block4_entries block4_keys) =
      Some (block4_entries ! 1, [0x61, 0x62])"
    and l2: "linear_lower_bound bytewise [0x61, 0x7a] (zip block4_entries block4_keys) =
      Some (block4_entries ! 2, [0x62, 0x61])"
    and f2: "linear_find bytewise [0x61, 0x7a] (zip block4_entries block4_keys) = None"
    and l3: "linear_lower_bound bytewise [0x7a] (zip block4_entries block4_keys) = None"
    and l4: "linear_lower_bound bytewise [0x62, 0x61] (zip block4_entries block4_keys) =
      Some (block4_entries ! 2, [0x62, 0x61])"
    and f4: "linear_find bytewise [0x62, 0x61] (zip block4_entries block4_keys) =
      Some (block4_entries ! 2, [0x62, 0x61])"
    unfolding block4_zip by (simp_all add: linear_lower_bound_def linear_find_def)
  have p1: "\<exists>it. Block_lower_bound block4 [0x61, 0x62] = Some (Inr it) \<and>
         cursor_on block4 it (Some (block4_entries ! 1, [0x61, 0x62])) \<and>
         (\<exists>it'. Block_find block4 [0x61, 0x62] = Some (Inr it') \<and>
               cursor_on block4 it' (Some (block4_entries ! 1, [0x61, 0x62])))"
    using T[of "[0x61, 0x62]"] unfolding c k0 l1 f1 by simp blast
  have p4: "\<exists>it. Block_lower_bound block4 [0x62, 0x61] = Some (Inr it) \<and>
         cursor_on block4 it (Some (block4_entries ! 2, [0x62, 0x61])) \<and>
         (\<exists>it'. Block_find block4 [0x62, 0x61] = Some (Inr it') \<and>
               cursor_on block4 it' (Some (block4_entries ! 2, [0x62, 0x61])))"
    using T[of "[0x62, 0x61]"] unfolding c k0 l4 f4 by simp blast
  have p2: "\<exists>it. Block_lower_bound block4 [0x61, 0x7a] = Some (Inr it) \<and>
         cursor_on block4 it (Some (block4_entries ! 2, [0x62, 0x61])) \<and>
         Block_find block4 [0x61, 0x7a] = Some (Block_end block4)"
    using T[of "[0x61, 0x7a]"] unfolding c k0 l2 f2 by simp
  have p3: "\<exists>it. Block_lower_bound block4 [0x7a] = Some (Inr it) \<and> cursor_on block4 it None"
    using T[of "[0x7a]"] unfolding c k0 l3 by simp
  have p5: "Block_lower_bound block4 [0x61] = Some (Block_end block4)"
    using T[of "[0x61]"] unfolding c k0 by simp
  from block4_invariants p1 p4 p2 p3 p5 show ?thesis by (intro conjI)
qed

text \<open>
  Claim C2 as the spec has it, refuted on the same block for the probe \<open>a\<close>, which is
  before the first key: a linear scan over the entries finds the first entry, \<open>aa\<close>,
  the first key not less than the probe; \<open>lower_bound\<close> returns the end cursor, which
  is at the offset 22 and not on that entry, at the offset 3.
\<close>

theorem lower_bound_before_first_key_is_end:
  "restart_invariants block4 block4_entries block4_keys block4_group \<and>
   linear_lower_bound (comp block4) [0x61] (zip block4_entries block4_keys) =
     Some (block4_entries ! 0, [0x61, 0x61]) \<and>
   e_buf (block4_entries ! 0) = 3 \<and>
   Block_lower_bound block4 [0x61] =
     Some (Inr \<lparr>buf = 22, buf_len = 0, shared = 0, unshared = 0, value_len = 0,
                last_key = None, restart_pos = 0, key_str = [], stat = OK\<rparr>) \<and>
   \<not> cursor_on block4
        \<lparr>buf = 22, buf_len = 0, shared = 0, unshared = 0, value_len = 0,
         last_key = None, restart_pos = 0, key_str = [], stat = OK\<rparr>
        (linear_lower_bound (comp block4) [0x61] (zip block4_entries block4_keys))"
proof -
  have l: "linear_lower_bound (comp block4) [0x61] (zip block4_entries block4_keys) =
     Some (block4_entries ! 0, [0x61, 0x61])"
    unfolding block4_zip by (simp add: linear_lower_bound_def block4_def)
  have e: "e_buf (block4_entries ! 0) = 3" by (simp add: block4_entries_def)
  have b: "Block_lower_bound block4 [0x61] =
     Some (Inr \<lparr>buf = 22, buf_len = 0, shared = 0, unshared = 0, value_len = 0,
                last_key = None, restart_pos = 0, key_str = [], stat = OK\<rparr>)"
    by (simp add: block_eval block4_def block4_bytes_def)
  have n: "\<not> cursor_on block4
        \<lparr>buf = 22, buf_len = 0, shared = 0, unshared = 0, value_len = 0,
         last_key = None, restart_pos = 0, key_str = [], stat = OK\<rparr>
        (linear_lower_bound (comp block4) [0x61] (zip block4_entries block4_keys))"
    unfolding l by (simp add: cursor_on_def e)
  from block4_invariants l e b n show ?thesis by (intro conjI)
qed

end
